theory Spec2Isabelle
  imports Complex_Main
begin

section \<open>Spring integrator\<close>

text \<open>
  The class \<open>Spring\<close> of \<open>src/scripts.js\<close>.  Its five fields are numbers; the data
  model of the specification takes them to be real numbers, and so does the record
  below.  The field \<open>value\<close> is called \<open>value_f\<close> here, the other fields keep
  their names.
\<close>

record Spring =
  value_f :: real
  target :: real
  velocity :: real
  stiffness :: real
  damping :: real

text \<open>
  \<open>constructor(value, stiffness = 300, damping = 20)\<close>: an omitted argument is
  \<open>None\<close> and takes the default.
\<close>

definition Spring_constructor :: "real \<Rightarrow> real option \<Rightarrow> real option \<Rightarrow> Spring" where
  "Spring_constructor v k c =
     \<lparr> value_f = v,
       target = v,
       velocity = 0,
       stiffness = (case k of None \<Rightarrow> 300 | Some k' \<Rightarrow> k'),
       damping = (case c of None \<Rightarrow> 20 | Some c' \<Rightarrow> c') \<rparr>"


text \<open>
  \<open>update(dt)\<close> mutates the spring and returns the new value: the model returns the
  pair of the returned number and the spring after the call.
\<close>

definition update :: "real \<Rightarrow> Spring \<Rightarrow> real \<times> Spring" where
  "update dt s =
     (let force = (target s - value_f s) * stiffness s;
          dampingForce = velocity s * damping s;
          s1 = s\<lparr>velocity := velocity s + (force - dampingForce) * dt\<rparr>;
          s2 = s1\<lparr>value_f := value_f s1 + velocity s1 * dt\<rparr>
      in (value_f s2, s2))"

definition isSettled :: "Spring \<Rightarrow> bool" where
  "isSettled s \<longleftrightarrow> \<bar>target s - value_f s\<bar> < 0.001 \<and> \<bar>velocity s\<bar> < 0.001"

text \<open>\<open>n\<close> consecutive calls of \<open>update(dt)\<close>, the target never touched in between.\<close>

fun updates :: "nat \<Rightarrow> real \<Rightarrow> Spring \<Rightarrow> Spring" where
  "updates 0 dt s = s"
| "updates (Suc n) dt s = updates n dt (snd (update dt s))"





section \<open>Numbers\<close>

text \<open>
  The pixel and refraction code computes with JavaScript numbers, and several of its
  guards are about the values \<open>NaN\<close> and \<open>\<plusminus>Infinity\<close> that a division by zero
  produces.  A number is therefore modelled as a real or one of these three special
  values.  Finite arithmetic is exact (no rounding, no overflow), and the two zeros of
  IEEE arithmetic are identified, a zero divisor counting as \<open>+0\<close>.
\<close>

datatype jsnum = is_Fin: Fin (fin_val: real) | PInf | NInf | NaN

instantiation jsnum :: "{uminus, plus, minus, times, inverse, ord}"
begin

fun uminus_jsnum :: "jsnum \<Rightarrow> jsnum" where
  "uminus_jsnum (Fin a) = Fin (- a)"
| "uminus_jsnum PInf = NInf"
| "uminus_jsnum NInf = PInf"
| "uminus_jsnum NaN = NaN"

fun plus_jsnum :: "jsnum \<Rightarrow> jsnum \<Rightarrow> jsnum" where
  "plus_jsnum (Fin a) (Fin b) = Fin (a + b)"
| "plus_jsnum NaN _ = NaN"
| "plus_jsnum _ NaN = NaN"
| "plus_jsnum PInf NInf = NaN"
| "plus_jsnum NInf PInf = NaN"
| "plus_jsnum PInf _ = PInf"
| "plus_jsnum _ PInf = PInf"
| "plus_jsnum NInf _ = NInf"
| "plus_jsnum _ NInf = NInf"

definition minus_jsnum :: "jsnum \<Rightarrow> jsnum \<Rightarrow> jsnum" where
  "minus_jsnum a b = a + (- b)"

fun times_jsnum :: "jsnum \<Rightarrow> jsnum \<Rightarrow> jsnum" where
  "times_jsnum (Fin a) (Fin b) = Fin (a * b)"
| "times_jsnum NaN _ = NaN"
| "times_jsnum _ NaN = NaN"
| "times_jsnum (Fin a) PInf = (if a = 0 then NaN else if 0 < a then PInf else NInf)"
| "times_jsnum (Fin a) NInf = (if a = 0 then NaN else if 0 < a then NInf else PInf)"
| "times_jsnum PInf (Fin b) = (if b = 0 then NaN else if 0 < b then PInf else NInf)"
| "times_jsnum NInf (Fin b) = (if b = 0 then NaN else if 0 < b then NInf else PInf)"
| "times_jsnum PInf PInf = PInf"
| "times_jsnum PInf NInf = NInf"
| "times_jsnum NInf PInf = NInf"
| "times_jsnum NInf NInf = PInf"

fun divide_jsnum :: "jsnum \<Rightarrow> jsnum \<Rightarrow> jsnum" where
  "divide_jsnum (Fin a) (Fin b) =
     (if b \<noteq> 0 then Fin (a / b) else if a = 0 then NaN else if 0 < a then PInf else NInf)"
| "divide_jsnum NaN _ = NaN"
| "divide_jsnum _ NaN = NaN"
| "divide_jsnum (Fin a) PInf = Fin 0"
| "divide_jsnum (Fin a) NInf = Fin 0"
| "divide_jsnum PInf (Fin b) = (if 0 \<le> b then PInf else NInf)"
| "divide_jsnum NInf (Fin b) = (if 0 \<le> b then NInf else PInf)"
| "divide_jsnum PInf PInf = NaN"
| "divide_jsnum PInf NInf = NaN"
| "divide_jsnum NInf PInf = NaN"
| "divide_jsnum NInf NInf = NaN"

fun inverse_jsnum :: "jsnum \<Rightarrow> jsnum" where
  "inverse_jsnum (Fin a) = (if a \<noteq> 0 then Fin (1 / a) else PInf)"
| "inverse_jsnum PInf = Fin 0"
| "inverse_jsnum NInf = Fin 0"
| "inverse_jsnum NaN = NaN"

text \<open>The comparisons \<open><\<close> and \<open><=\<close>: false as soon as one side is \<open>NaN\<close>.\<close>

fun less_jsnum :: "jsnum \<Rightarrow> jsnum \<Rightarrow> bool" where
  "less_jsnum (Fin a) (Fin b) = (a < b)"
| "less_jsnum NaN _ = False"
| "less_jsnum _ NaN = False"
| "less_jsnum _ NInf = False"
| "less_jsnum PInf _ = False"
| "less_jsnum NInf _ = True"
| "less_jsnum _ PInf = True"

fun less_eq_jsnum :: "jsnum \<Rightarrow> jsnum \<Rightarrow> bool" where
  "less_eq_jsnum (Fin a) (Fin b) = (a \<le> b)"
| "less_eq_jsnum NaN _ = False"
| "less_eq_jsnum _ NaN = False"
| "less_eq_jsnum NInf _ = True"
| "less_eq_jsnum _ PInf = True"
| "less_eq_jsnum _ NInf = False"
| "less_eq_jsnum PInf _ = False"

instance ..

end

text \<open>
  \<open>a > b\<close> and \<open>a >= b\<close> of the source are \<open>b < a\<close> and \<open>b \<le> a\<close> here.  The
  functions of \<open>Math\<close>:
\<close>

fun Math_abs :: "jsnum \<Rightarrow> jsnum" where
  "Math_abs (Fin a) = Fin \<bar>a\<bar>"
| "Math_abs PInf = PInf"
| "Math_abs NInf = PInf"
| "Math_abs NaN = NaN"

fun Math_sqrt :: "jsnum \<Rightarrow> jsnum" where
  "Math_sqrt (Fin a) = (if 0 \<le> a then Fin (sqrt a) else NaN)"
| "Math_sqrt PInf = PInf"
| "Math_sqrt NInf = NaN"
| "Math_sqrt NaN = NaN"

fun Math_floor :: "jsnum \<Rightarrow> jsnum" where
  "Math_floor (Fin a) = Fin (of_int \<lfloor>a\<rfloor>)"
| "Math_floor PInf = PInf"
| "Math_floor NInf = NInf"
| "Math_floor NaN = NaN"

fun Math_max :: "jsnum \<Rightarrow> jsnum \<Rightarrow> jsnum" where
  "Math_max NaN _ = NaN"
| "Math_max _ NaN = NaN"
| "Math_max a b = (if a < b then b else a)"

fun Math_min :: "jsnum \<Rightarrow> jsnum \<Rightarrow> jsnum" where
  "Math_min NaN _ = NaN"
| "Math_min _ NaN = NaN"
| "Math_min a b = (if b < a then b else a)"

text \<open>\<open>Math.max(...xs)\<close> of a whole array; \<open>-Infinity\<close> for the empty one.\<close>

definition Math_max_list :: "jsnum list \<Rightarrow> jsnum" where
  "Math_max_list xs = fold (\<lambda>x m. Math_max m x) xs NInf"

fun Math_cos :: "jsnum \<Rightarrow> jsnum" where
  "Math_cos (Fin a) = Fin (cos a)"
| "Math_cos _ = NaN"

fun Math_sin :: "jsnum \<Rightarrow> jsnum" where
  "Math_sin (Fin a) = Fin (sin a)"
| "Math_sin _ = NaN"

text \<open>
  \<open>Math.pow\<close>.  A finite non-zero base with a finite non-zero exponent gives the real
  power, an integer power when the exponent is an integer (the only case in which a
  negative base has a power); the other cases are those of the language definition.
\<close>

definition real_pow :: "real \<Rightarrow> real \<Rightarrow> real" where
  "real_pow b e = (if e = of_int \<lfloor>e\<rfloor> then b powi \<lfloor>e\<rfloor> else b powr e)"

definition odd_integer :: "real \<Rightarrow> bool" where
  "odd_integer e \<longleftrightarrow> e = of_int \<lfloor>e\<rfloor> \<and> odd \<lfloor>e\<rfloor>"

fun Math_pow :: "jsnum \<Rightarrow> jsnum \<Rightarrow> jsnum" where
  "Math_pow _ NaN = NaN"
| "Math_pow NaN (Fin e) = (if e = 0 then Fin 1 else NaN)"
| "Math_pow NaN _ = NaN"
| "Math_pow (Fin b) (Fin e) =
     (if e = 0 then Fin 1
      else if b = 0 then (if 0 < e then Fin 0 else PInf)
      else if b < 0 \<and> e \<noteq> of_int \<lfloor>e\<rfloor> then NaN
      else Fin (real_pow b e))"
| "Math_pow (Fin b) PInf =
     (if 1 < \<bar>b\<bar> then PInf else if \<bar>b\<bar> = 1 then NaN else Fin 0)"
| "Math_pow (Fin b) NInf =
     (if 1 < \<bar>b\<bar> then Fin 0 else if \<bar>b\<bar> = 1 then NaN else PInf)"
| "Math_pow PInf (Fin e) = (if e = 0 then Fin 1 else if 0 < e then PInf else Fin 0)"
| "Math_pow PInf PInf = PInf"
| "Math_pow PInf NInf = Fin 0"
| "Math_pow NInf (Fin e) =
     (if e = 0 then Fin 1
      else if 0 < e then (if odd_integer e then NInf else PInf)
      else Fin 0)"
| "Math_pow NInf PInf = PInf"
| "Math_pow NInf NInf = Fin 0"

text \<open>
  Truthiness of a number, and \<open>a || b\<close> on numbers: zero and \<open>NaN\<close> are falsy.
\<close>

fun truthy :: "jsnum \<Rightarrow> bool" where
  "truthy (Fin a) = (a \<noteq> 0)"
| "truthy NaN = False"
| "truthy _ = True"

definition or_else :: "jsnum \<Rightarrow> jsnum \<Rightarrow> jsnum" where
  "or_else a b = (if truthy a then a else b)"

text \<open>
  Reading \<open>xs[i]\<close> from an array of numbers with a number as the index: the element
  when \<open>i\<close> is an integer within the bounds, and \<open>undefined\<close>, here \<open>None\<close>, for every
  other index, \<open>NaN\<close> included.
\<close>

fun array_get :: "jsnum list \<Rightarrow> jsnum \<Rightarrow> jsnum option" where
  "array_get xs (Fin i) =
     (if i = of_int \<lfloor>i\<rfloor> \<and> 0 \<le> i \<and> i < real (length xs) then Some (xs ! nat \<lfloor>i\<rfloor>) else None)"
| "array_get xs _ = None"

text \<open>\<open>xs[i] || 0\<close>: \<open>undefined\<close> is falsy too.\<close>

definition array_get_or_zero :: "jsnum list \<Rightarrow> jsnum \<Rightarrow> jsnum" where
  "array_get_or_zero xs i = (case array_get xs i of None \<Rightarrow> Fin 0 | Some v \<Rightarrow> or_else v (Fin 0))"

section \<open>Pixel buffers\<close>

text \<open>
  \<open>ImageData.data\<close> is a \<open>Uint8ClampedArray\<close>: four bytes per pixel, row by row.  A
  number stored into it is clamped to \<open>0..255\<close> and rounded to the nearest integer, a
  tie going to the even one; \<open>NaN\<close> is stored as 0.
\<close>

definition round_half_even :: "real \<Rightarrow> int" where
  "round_half_even a =
     (let f = \<lfloor>a\<rfloor>
      in if a - of_int f < 1/2 then f
         else if 1/2 < a - of_int f then f + 1
         else if even f then f else f + 1)"

fun toUint8Clamp :: "jsnum \<Rightarrow> nat" where
  "toUint8Clamp (Fin a) = (if a \<le> 0 then 0 else if 255 \<le> a then 255 else nat (round_half_even a))"
| "toUint8Clamp PInf = 255"
| "toUint8Clamp NInf = 0"
| "toUint8Clamp NaN = 0"

text \<open>
  \<open>data[i] = v\<close>: a store at an index that is not an integer within the bounds does
  nothing.
\<close>

fun array_set :: "nat list \<Rightarrow> jsnum \<Rightarrow> jsnum \<Rightarrow> nat list" where
  "array_set d (Fin i) v =
     (if i = of_int \<lfloor>i\<rfloor> \<and> 0 \<le> i \<and> i < real (length d) then d[nat \<lfloor>i\<rfloor> := toUint8Clamp v] else d)"
| "array_set d _ v = d"

text \<open>
  \<open>new ImageData(sw, sh)\<close>: the sizes are unsigned integers, a zero size throws
  \<open>IndexSizeError\<close>, and the buffer starts as transparent black.
\<close>

datatype js_error = IndexSizeError

record ImageData =
  width :: nat
  height :: nat
  data :: "nat list"

definition new_ImageData :: "nat \<Rightarrow> nat \<Rightarrow> js_error + ImageData" where
  "new_ImageData sw sh =
     (if sw = 0 \<or> sh = 0 then Inl IndexSizeError
      else Inr \<lparr> width = sw, height = sh, data = replicate (4 * sw * sh) 0 \<rparr>)"

text \<open>The four channels of the pixel in column \<open>x\<close> of row \<open>y\<close>.\<close>

definition pixel :: "ImageData \<Rightarrow> nat \<Rightarrow> nat \<Rightarrow> nat \<times> nat \<times> nat \<times> nat" where
  "pixel img x y =
     (let i = 4 * (y * width img + x)
      in (data img ! i, data img ! (i + 1), data img ! (i + 2), data img ! (i + 3)))"

section \<open>2D displacement field\<close>

text \<open>
  \<open>calculateDisplacementMap2D\<close> of \<open>src/scripts.js\<close>.  The four sizes are pixel
  counts, hence natural numbers; radius, bezel width, the normalising maximum and the
  entries of the table are numbers.  The body of the double loop is cut into the
  definitions below, one for each group of \<open>const\<close> declarations of the source.
\<close>

text \<open>
  The first loop: every pixel becomes \<open>(128, 128, 0, 255)\<close>.  The counter \<open>i\<close> runs
  over the multiples \<open>4 * p\<close> of four below the length; a store beyond the end of the
  array does nothing.
\<close>

definition fill_neutral :: "nat list \<Rightarrow> nat list" where
  "fill_neutral d =
     fold (\<lambda>p d. d[4 * p := 128, 4 * p + 1 := 128, 4 * p + 2 := 0, 4 * p + 3 := 255])
       [0 ..< (length d + 3) div 4] d"

text \<open>
  The coordinate relative to the nearest corner centre, \<open>x\<close> from \<open>x1\<close> and
  \<open>objectWidth\<close>, \<open>y\<close> from \<open>y1\<close> and \<open>objectHeight\<close> by the same expression:
  \<open>isOnLeftSide ? x1 - radius : isOnRightSide ? x1 - radius - widthBetweenRadiuses : 0\<close>.
\<close>

definition cornerOffset :: "jsnum \<Rightarrow> jsnum \<Rightarrow> jsnum \<Rightarrow> jsnum" where
  "cornerOffset objectWidth radius x1 =
     (let widthBetweenRadiuses = objectWidth - radius * Fin 2;
          isOnLeftSide = x1 < radius;
          isOnRightSide = objectWidth - radius \<le> x1
      in if isOnLeftSide then x1 - radius
         else if isOnRightSide then x1 - radius - widthBetweenRadiuses
         else Fin 0)"

definition distanceToCenterSquared :: "nat \<Rightarrow> nat \<Rightarrow> jsnum \<Rightarrow> nat \<Rightarrow> nat \<Rightarrow> jsnum" where
  "distanceToCenterSquared objectWidth objectHeight radius x1 y1 =
     (let x = cornerOffset (Fin (real objectWidth)) radius (Fin (real x1));
          y = cornerOffset (Fin (real objectHeight)) radius (Fin (real y1))
      in x * x + y * y)"

definition isInBezel :: "jsnum \<Rightarrow> jsnum \<Rightarrow> jsnum \<Rightarrow> bool" where
  "isInBezel radius bezelWidth dsq =
     (let radiusPlusOneSquared = (radius + Fin 1) * (radius + Fin 1);
          radiusMinusBezelSquared = Math_max (Fin 0) ((radius - bezelWidth) * (radius - bezelWidth))
      in dsq \<le> radiusPlusOneSquared \<and> radiusMinusBezelSquared \<le> dsq)"

definition edgeOpacity :: "jsnum \<Rightarrow> jsnum \<Rightarrow> jsnum" where
  "edgeOpacity radius dsq =
     (let radiusSquared = radius * radius;
          radiusPlusOneSquared = (radius + Fin 1) * (radius + Fin 1)
      in if dsq < radiusSquared then Fin 1
         else Fin 1 - (Math_sqrt dsq - Math_sqrt radiusSquared)
                       / (Math_sqrt radiusPlusOneSquared - Math_sqrt radiusSquared))"

definition bezelRatio :: "jsnum \<Rightarrow> jsnum \<Rightarrow> jsnum \<Rightarrow> jsnum" where
  "bezelRatio radius bezelWidth dsq =
     (let distanceFromCenter = Math_sqrt dsq;
          distanceFromSide = radius - distanceFromCenter
      in Math_max (Fin 0) (Math_min (Fin 1) (distanceFromSide / bezelWidth)))"

text \<open>The index with which the table is read, after the clamp.\<close>

definition tableIndex :: "jsnum \<Rightarrow> jsnum \<Rightarrow> jsnum list \<Rightarrow> jsnum \<Rightarrow> jsnum" where
  "tableIndex radius bezelWidth precomputedMap dsq =
     (let bezelIndex = Math_floor (bezelRatio radius bezelWidth dsq * Fin (real (length precomputedMap)))
      in Math_max (Fin 0) (Math_min bezelIndex (Fin (real (length precomputedMap)) - Fin 1)))"

text \<open>
  The body of the \<open>if (isInBezel)\<close>: the numbers assigned to the red and the green
  channel of a pixel in the band, before the array converts them to bytes.
\<close>

definition bezelChannels ::
  "nat \<Rightarrow> nat \<Rightarrow> jsnum \<Rightarrow> jsnum \<Rightarrow> jsnum \<Rightarrow> jsnum list \<Rightarrow> nat \<Rightarrow> nat \<Rightarrow> jsnum \<times> jsnum" where
  "bezelChannels objectWidth objectHeight radius bezelWidth maximumDisplacement precomputedMap x1 y1 =
     (let x = cornerOffset (Fin (real objectWidth)) radius (Fin (real x1));
          y = cornerOffset (Fin (real objectHeight)) radius (Fin (real y1));
          dsq = distanceToCenterSquared objectWidth objectHeight radius x1 y1;
          opacity = edgeOpacity radius dsq;
          distanceFromCenter = Math_sqrt dsq;
          cos = (if Fin 0 < distanceFromCenter then x / distanceFromCenter else Fin 0);
          sin = (if Fin 0 < distanceFromCenter then y / distanceFromCenter else Fin 0);
          distance = array_get_or_zero precomputedMap (tableIndex radius bezelWidth precomputedMap dsq);
          dX = (if Fin 0 < maximumDisplacement then (- cos * distance) / maximumDisplacement else Fin 0);
          dY = (if Fin 0 < maximumDisplacement then (- sin * distance) / maximumDisplacement else Fin 0)
      in (Math_max (Fin 0) (Math_min (Fin 255) (Fin 128 + dX * Fin 127 * opacity)),
          Math_max (Fin 0) (Math_min (Fin 255) (Fin 128 + dY * Fin 127 * opacity))))"

text \<open>One turn of the inner loop, on the buffer.\<close>

definition paintDisplacement ::
  "nat \<Rightarrow> nat \<Rightarrow> nat \<Rightarrow> nat \<Rightarrow> jsnum \<Rightarrow> jsnum \<Rightarrow> jsnum \<Rightarrow> jsnum list \<Rightarrow> nat \<Rightarrow> nat
     \<Rightarrow> nat list \<Rightarrow> nat list" where
  "paintDisplacement canvasWidth canvasHeight objectWidth objectHeight radius bezelWidth
       maximumDisplacement precomputedMap y1 x1 d =
     (let objectX = (Fin (real canvasWidth) - Fin (real objectWidth)) / Fin 2;
          objectY = (Fin (real canvasHeight) - Fin (real objectHeight)) / Fin 2;
          idx = ((objectY + Fin (real y1)) * Fin (real canvasWidth) + objectX + Fin (real x1)) * Fin 4
      in if isInBezel radius bezelWidth (distanceToCenterSquared objectWidth objectHeight radius x1 y1)
         then (case bezelChannels objectWidth objectHeight radius bezelWidth maximumDisplacement
                      precomputedMap x1 y1 of
                 (r, g) \<Rightarrow>
                   array_set (array_set (array_set (array_set d idx r) (idx + Fin 1) g)
                     (idx + Fin 2) (Fin 0)) (idx + Fin 3) (Fin 255))
         else d)"

definition calculateDisplacementMap2D ::
  "nat \<Rightarrow> nat \<Rightarrow> nat \<Rightarrow> nat \<Rightarrow> jsnum \<Rightarrow> jsnum \<Rightarrow> jsnum \<Rightarrow> jsnum list \<Rightarrow> js_error + ImageData" where
  "calculateDisplacementMap2D canvasWidth canvasHeight objectWidth objectHeight radius bezelWidth
       maximumDisplacement precomputedMap =
     (case new_ImageData canvasWidth canvasHeight of
        Inl e \<Rightarrow> Inl e
      | Inr imageData \<Rightarrow>
          Inr (imageData\<lparr>data :=
            fold (\<lambda>y1 d.
                fold (paintDisplacement canvasWidth canvasHeight objectWidth objectHeight radius
                        bezelWidth maximumDisplacement precomputedMap y1)
                  [0 ..< objectWidth] d)
              [0 ..< objectHeight] (fill_neutral (data imageData))\<rparr>))"

text \<open>
  The caller, \<open>updateFilter\<close>: the maximum of the absolute table entries, and the
  argument \<open>state.maximumDisplacement || 1\<close> it passes on.
\<close>

definition maximumDisplacement_of :: "jsnum list \<Rightarrow> jsnum" where
  "maximumDisplacement_of precomputed = Math_max_list (map Math_abs precomputed)"

definition normalizer :: "jsnum list \<Rightarrow> jsnum" where
  "normalizer precomputed = or_else (maximumDisplacement_of precomputed) (Fin 1)"

section \<open>Specular highlight\<close>

text \<open>
  \<open>calculateSpecularHighlight\<close>; \<open>specularAngle\<close> defaults to \<open>Math.PI / 3\<close>, and
  \<open>bezelWidth\<close> is a parameter the body never reads.
\<close>

definition isNearEdge :: "jsnum \<Rightarrow> jsnum \<Rightarrow> bool" where
  "isNearEdge radius dsq =
     (let specularThickness = Fin 1.5;
          radiusPlusOneSquared = (radius + Fin 1) * (radius + Fin 1);
          radiusMinusSpecularSquared =
            Math_max (Fin 0) ((radius - specularThickness) * (radius - specularThickness))
      in dsq \<le> radiusPlusOneSquared \<and> radiusMinusSpecularSquared \<le> dsq)"

text \<open>The numbers assigned to the three colour channels and to alpha.\<close>

definition specularChannels :: "nat \<Rightarrow> nat \<Rightarrow> jsnum \<Rightarrow> jsnum \<Rightarrow> nat \<Rightarrow> nat \<Rightarrow> jsnum \<times> jsnum" where
  "specularChannels objectWidth objectHeight radius specularAngle x1 y1 =
     (let specularVector = (Math_cos specularAngle, Math_sin specularAngle);
          specularThickness = Fin 1.5;
          x = cornerOffset (Fin (real objectWidth)) radius (Fin (real x1));
          y = cornerOffset (Fin (real objectHeight)) radius (Fin (real y1));
          dsq = distanceToCenterSquared objectWidth objectHeight radius x1 y1;
          distanceFromCenter = Math_sqrt dsq;
          distanceFromSide = radius - distanceFromCenter;
          opacity = edgeOpacity radius dsq;
          cos = (if Fin 0 < distanceFromCenter then x / distanceFromCenter else Fin 0);
          sin = (if Fin 0 < distanceFromCenter then (- y) / distanceFromCenter else Fin 0);
          dotProduct = Math_abs (cos * fst specularVector + sin * snd specularVector);
          edgeRatio = Math_max (Fin 0) (Math_min (Fin 1) (distanceFromSide / specularThickness));
          sharpFalloff = Math_sqrt (Fin 1 - (Fin 1 - edgeRatio) * (Fin 1 - edgeRatio));
          coefficient = dotProduct * sharpFalloff;
          color = Math_min (Fin 255) (Fin 255 * coefficient);
          finalOpacity = Math_min (Fin 255) (color * coefficient * opacity)
      in (color, finalOpacity))"

definition paintSpecular ::
  "nat \<Rightarrow> nat \<Rightarrow> jsnum \<Rightarrow> jsnum \<Rightarrow> nat \<Rightarrow> nat \<Rightarrow> nat list \<Rightarrow> nat list" where
  "paintSpecular objectWidth objectHeight radius specularAngle y1 x1 d =
     (let idx = (Fin (real y1) * Fin (real objectWidth) + Fin (real x1)) * Fin 4
      in if isNearEdge radius (distanceToCenterSquared objectWidth objectHeight radius x1 y1)
         then (case specularChannels objectWidth objectHeight radius specularAngle x1 y1 of
                 (color, finalOpacity) \<Rightarrow>
                   array_set (array_set (array_set (array_set d idx color) (idx + Fin 1) color)
                     (idx + Fin 2) color) (idx + Fin 3) finalOpacity)
         else d)"

definition calculateSpecularHighlight ::
  "nat \<Rightarrow> nat \<Rightarrow> jsnum \<Rightarrow> jsnum \<Rightarrow> jsnum option \<Rightarrow> js_error + ImageData" where
  "calculateSpecularHighlight objectWidth objectHeight radius bezelWidth specularAngle =
     (case new_ImageData objectWidth objectHeight of
        Inl e \<Rightarrow> Inl e
      | Inr imageData \<Rightarrow>
          Inr (imageData\<lparr>data :=
            fold (\<lambda>y1 d.
                fold (paintSpecular objectWidth objectHeight radius
                        (case specularAngle of None \<Rightarrow> Fin (pi / 3) | Some a \<Rightarrow> a) y1)
                  [0 ..< objectWidth] d)
              [0 ..< objectHeight] (data imageData)\<rparr>))"

section \<open>Auxiliary notions for the pixel buffers\<close>

text \<open>The byte the first loop leaves at index \<open>i\<close> of the buffer.\<close>

definition neutral :: "nat \<Rightarrow> nat" where
  "neutral i = [128, 128, 0, 255] ! (i mod 4)"

text \<open>
  The index of the first byte written for the object pixel \<open>(x1, y1)\<close>, as a natural
  number, when the object fits in the canvas with an even margin.
\<close>

definition canvasIndex :: "nat \<Rightarrow> nat \<Rightarrow> nat \<Rightarrow> nat \<Rightarrow> nat \<Rightarrow> nat \<Rightarrow> nat" where
  "canvasIndex canvasWidth canvasHeight objectWidth objectHeight x1 y1 =
     4 * (((canvasHeight - objectHeight) div 2 + y1) * canvasWidth
          + (canvasWidth - objectWidth) div 2 + x1)"

section \<open>Surface profiles and the 1D refraction sampler\<close>

text \<open>
  The four entries of \<open>SurfaceEquations\<close> of \<open>src/scripts.js\<close>, selected by name.
  The local constants \<open>convex\<close>, \<open>concave\<close> and \<open>smootherstep\<close> of \<open>lip\<close> are
  bound by the \<open>let\<close>.
\<close>

datatype surface = convex_circle | convex_squircle | concave | lip

fun SurfaceEquations :: "surface \<Rightarrow> jsnum \<Rightarrow> jsnum" where
  "SurfaceEquations convex_circle x = Math_sqrt (Fin 1 - Math_pow (Fin 1 - x) (Fin 2))"
| "SurfaceEquations convex_squircle x =
     Math_pow (Fin 1 - Math_pow (Fin 1 - x) (Fin 4)) (Fin 1 / Fin 4)"
| "SurfaceEquations concave x = Fin 1 - Math_sqrt (Fin 1 - Math_pow x (Fin 2))"
| "SurfaceEquations lip x =
     (let convex = Math_pow (Fin 1 - Math_pow (Fin 1 - Math_min (x * Fin 2) (Fin 1)) (Fin 4))
                     (Fin 1 / Fin 4);
          concave = Fin 1 - Math_sqrt (Fin 1 - Math_pow (Fin 1 - x) (Fin 2)) + Fin 0.1;
          smootherstep = Fin 6 * Math_pow x (Fin 5) - Fin 15 * Math_pow x (Fin 4)
                           + Fin 10 * Math_pow x (Fin 3)
      in convex * (Fin 1 - smootherstep) + concave * smootherstep)"

text \<open>
  \<open>calculateDisplacementMap1D\<close>.  The inner function \<open>refract\<close> reads \<open>eta\<close> from the
  enclosing scope and returns \<open>null\<close>, here \<open>None\<close>, on total internal reflection; its
  \<open>k\<close> has a definition of its own.
\<close>

definition refract_k :: "jsnum \<Rightarrow> jsnum \<Rightarrow> jsnum" where
  "refract_k eta normalY = (let dot = normalY in Fin 1 - eta * eta * (Fin 1 - dot * dot))"

definition refract :: "jsnum \<Rightarrow> jsnum \<Rightarrow> jsnum \<Rightarrow> (jsnum \<times> jsnum) option" where
  "refract eta normalX normalY =
     (let dot = normalY;
          k = refract_k eta normalY
      in if k < Fin 0 then None
         else (let kSqrt = Math_sqrt k
               in Some (- (eta * dot + kSqrt) * normalX, eta - (eta * dot + kSqrt) * normalY)))"

text \<open>
  The body of the loop for the counter \<open>i\<close>, in two parts: the surface normal at the
  sample position, and the number pushed onto \<open>result\<close>.
\<close>

definition sampleNormal :: "(jsnum \<Rightarrow> jsnum) \<Rightarrow> nat \<Rightarrow> nat \<Rightarrow> jsnum \<times> jsnum" where
  "sampleNormal surfaceFn samples i =
     (let x = Fin (real i) / Fin (real samples);
          y = surfaceFn x;
          dx = (if x < Fin 1 then Fin 0.0001 else - Fin 0.0001);
          y2 = surfaceFn (Math_max (Fin 0) (Math_min (Fin 1) (x + dx)));
          derivative = (y2 - y) / dx;
          magnitude = Math_sqrt (derivative * derivative + Fin 1)
      in (- derivative / magnitude, - Fin 1 / magnitude))"

definition sample :: "jsnum \<Rightarrow> jsnum \<Rightarrow> (jsnum \<Rightarrow> jsnum) \<Rightarrow> jsnum \<Rightarrow> nat \<Rightarrow> nat \<Rightarrow> jsnum" where
  "sample glassThickness bezelWidth surfaceFn eta samples i =
     (let x = Fin (real i) / Fin (real samples);
          y = surfaceFn x;
          normal = sampleNormal surfaceFn samples i;
          refracted = refract eta (fst normal) (snd normal)
      in case refracted of
           None \<Rightarrow> Fin 0
         | Some (refracted0, refracted1) \<Rightarrow>
             (let remainingHeightOnBezel = y * bezelWidth;
                  remainingHeight = remainingHeightOnBezel + glassThickness
              in refracted0 * (remainingHeight / refracted1)))"

text \<open>
  The loop pushes one number for each \<open>i\<close> from 0 below \<open>samples\<close>, in order;
  \<open>samples\<close> is a count and defaults to 128.
\<close>

definition sampleCount :: "nat option \<Rightarrow> nat" where
  "sampleCount samples = (case samples of None \<Rightarrow> 128 | Some s \<Rightarrow> s)"

definition calculateDisplacementMap1D ::
  "jsnum \<Rightarrow> jsnum \<Rightarrow> (jsnum \<Rightarrow> jsnum) \<Rightarrow> jsnum \<Rightarrow> nat option \<Rightarrow> jsnum list" where
  "calculateDisplacementMap1D glassThickness bezelWidth surfaceFn refractiveIndex samples =
     (let eta = Fin 1 / refractiveIndex
      in map (sample glassThickness bezelWidth surfaceFn eta (sampleCount samples))
           [0 ..< sampleCount samples])"

section \<open>Auxiliary notions for the sampler\<close>

text \<open>
  The computation of one sample on real numbers, as it runs when every intermediate
  value is finite: the forward difference, the unit normal, the refracted direction
  and the factor \<open>refracted[0] / refracted[1]\<close> by which the remaining height is
  multiplied.  The lemmas \<open>sampleNormal_Fin\<close>, \<open>refract_Fin\<close> and \<open>sample_real\<close>
  relate them to the definitions above.
\<close>

definition slope :: "real \<Rightarrow> real \<Rightarrow> real" where
  "slope y y2 = (y2 - y) / (1/10000)"

definition normal_of :: "real \<Rightarrow> real \<times> real" where
  "normal_of D = (- D / sqrt (D * D + 1), - 1 / sqrt (D * D + 1))"

definition refract_real :: "real \<Rightarrow> real \<Rightarrow> real \<Rightarrow> (real \<times> real) option" where
  "refract_real eta nx ny =
     (let k = 1 - eta * eta * (1 - ny * ny)
      in if k < 0 then None
         else Some (- (eta * ny + sqrt k) * nx, eta - (eta * ny + sqrt k) * ny))"

definition coefficient :: "real \<Rightarrow> real \<Rightarrow> real" where
  "coefficient eta D =
     (case refract_real eta (fst (normal_of D)) (snd (normal_of D)) of
        None \<Rightarrow> 0
      | Some (r0, r1) \<Rightarrow> r0 / r1)"



section \<open>Double-precision numbers\<close>

text \<open>
  A JavaScript number is an IEEE 754 binary64 value, and every arithmetic operation
  of the source rounds its exact result to the nearest such value.  Whether a table
  entry is close to zero, whether a product overflows to \<open>Infinity\<close>, whether a spring
  ever comes within a thousandth of its target: these depend on that rounding.  The
  statements on the refraction table, on the values written to the displacement
  buffer and on the settling of a spring are therefore made on the model of this
  section, in which an operation computes the exact real result and rounds it.

  A positive double is \<open>m * 2 ^ e\<close> with an integer \<open>m < 2 ^ 53\<close> and
  \<open>- 1074 \<le> e \<le> 971\<close>.  For a real \<open>x\<close>, \<open>binade x\<close> is the exponent of the power
  of two at or below \<open>\<bar>x\<bar>\<close>, or \<open>- 1022\<close> for the subnormal range; \<open>ulp x\<close> is the
  distance between neighbouring doubles there; \<open>rne x\<close> is the multiple of \<open>ulp x\<close>
  nearest to \<open>x\<close>, the even multiple on a tie.
\<close>

definition binade :: "real \<Rightarrow> int" where
  "binade x = (if \<bar>x\<bar> < 2 powr (- 1022) then - 1022 else \<lfloor>log 2 \<bar>x\<bar>\<rfloor>)"

definition ulp :: "real \<Rightarrow> real" where
  "ulp x = 2 powr (of_int (binade x) - 52)"

definition rne :: "real \<Rightarrow> real" where
  "rne x = of_int (round_half_even (x / ulp x)) * ulp x"

text \<open>The largest double, \<open>Number.MAX_VALUE\<close>.\<close>

definition max_double :: real where
  "max_double = 2 ^ 1024 - 2 ^ 971"

text \<open>
  A double is a real number, which is then a fixed point of \<open>rne\<close> of magnitude at
  most \<open>max_double\<close>, or one of the three special values.  The two zeros are
  identified, a zero divisor counting as \<open>+0\<close>.
\<close>

datatype double = is_Num: Num (num_val: real) | PosInf | NegInf | NotANumber

text \<open>
  The result of an operation whose exact value is \<open>x\<close>: the rounded value, or an
  infinity when the rounded value is beyond the largest double.
\<close>

definition fl :: "real \<Rightarrow> double" where
  "fl x = (if max_double < \<bar>rne x\<bar> then (if 0 < x then PosInf else NegInf) else Num (rne x))"

instantiation double :: "{uminus, plus, minus, times, inverse, ord}"
begin

fun uminus_double :: "double \<Rightarrow> double" where
  "uminus_double (Num a) = Num (- a)"
| "uminus_double PosInf = NegInf"
| "uminus_double NegInf = PosInf"
| "uminus_double NotANumber = NotANumber"

fun plus_double :: "double \<Rightarrow> double \<Rightarrow> double" where
  "plus_double (Num a) (Num b) = fl (a + b)"
| "plus_double NotANumber _ = NotANumber"
| "plus_double _ NotANumber = NotANumber"
| "plus_double PosInf NegInf = NotANumber"
| "plus_double NegInf PosInf = NotANumber"
| "plus_double PosInf _ = PosInf"
| "plus_double _ PosInf = PosInf"
| "plus_double NegInf _ = NegInf"
| "plus_double _ NegInf = NegInf"

definition minus_double :: "double \<Rightarrow> double \<Rightarrow> double" where
  "minus_double a b = a + (- b)"

fun times_double :: "double \<Rightarrow> double \<Rightarrow> double" where
  "times_double (Num a) (Num b) = fl (a * b)"
| "times_double NotANumber _ = NotANumber"
| "times_double _ NotANumber = NotANumber"
| "times_double (Num a) PosInf = (if a = 0 then NotANumber else if 0 < a then PosInf else NegInf)"
| "times_double (Num a) NegInf = (if a = 0 then NotANumber else if 0 < a then NegInf else PosInf)"
| "times_double PosInf (Num b) = (if b = 0 then NotANumber else if 0 < b then PosInf else NegInf)"
| "times_double NegInf (Num b) = (if b = 0 then NotANumber else if 0 < b then NegInf else PosInf)"
| "times_double PosInf PosInf = PosInf"
| "times_double PosInf NegInf = NegInf"
| "times_double NegInf PosInf = NegInf"
| "times_double NegInf NegInf = PosInf"

fun divide_double :: "double \<Rightarrow> double \<Rightarrow> double" where
  "divide_double (Num a) (Num b) =
     (if b \<noteq> 0 then fl (a / b)
      else if a = 0 then NotANumber else if 0 < a then PosInf else NegInf)"
| "divide_double NotANumber _ = NotANumber"
| "divide_double _ NotANumber = NotANumber"
| "divide_double (Num a) PosInf = Num 0"
| "divide_double (Num a) NegInf = Num 0"
| "divide_double PosInf (Num b) = (if 0 \<le> b then PosInf else NegInf)"
| "divide_double NegInf (Num b) = (if 0 \<le> b then NegInf else PosInf)"
| "divide_double PosInf PosInf = NotANumber"
| "divide_double PosInf NegInf = NotANumber"
| "divide_double NegInf PosInf = NotANumber"
| "divide_double NegInf NegInf = NotANumber"

fun inverse_double :: "double \<Rightarrow> double" where
  "inverse_double (Num a) = (if a \<noteq> 0 then fl (1 / a) else PosInf)"
| "inverse_double PosInf = Num 0"
| "inverse_double NegInf = Num 0"
| "inverse_double NotANumber = NotANumber"

fun less_double :: "double \<Rightarrow> double \<Rightarrow> bool" where
  "less_double (Num a) (Num b) = (a < b)"
| "less_double NotANumber _ = False"
| "less_double _ NotANumber = False"
| "less_double _ NegInf = False"
| "less_double PosInf _ = False"
| "less_double NegInf _ = True"
| "less_double _ PosInf = True"

fun less_eq_double :: "double \<Rightarrow> double \<Rightarrow> bool" where
  "less_eq_double (Num a) (Num b) = (a \<le> b)"
| "less_eq_double NotANumber _ = False"
| "less_eq_double _ NotANumber = False"
| "less_eq_double NegInf _ = True"
| "less_eq_double _ PosInf = True"
| "less_eq_double _ NegInf = False"
| "less_eq_double PosInf _ = False"

instance ..

end

text \<open>
  A decimal literal of the source denotes the double nearest to it; a count (a loop
  counter, \<open>samples\<close>, a pixel coordinate, the length of an array) is converted in
  the same way, exactly as long as it is at most \<open>2 ^ 53\<close>.  Integer literals such as
  \<open>128\<close> are doubles and are written \<open>Num 128\<close>.
\<close>

definition literal :: "real \<Rightarrow> double" where
  "literal r = fl r"

definition count :: "nat \<Rightarrow> double" where
  "count n = fl (real n)"

text \<open>
  The functions of \<open>Math\<close> on doubles.  \<open>Math.sqrt\<close> is correctly rounded.
  \<open>Math.pow\<close>, whose accuracy the language leaves to the implementation, is taken
  to round the real power \<open>real_pow\<close> of the section on numbers in the same way.
\<close>

fun abs64 :: "double \<Rightarrow> double" where
  "abs64 (Num a) = Num \<bar>a\<bar>"
| "abs64 PosInf = PosInf"
| "abs64 NegInf = PosInf"
| "abs64 NotANumber = NotANumber"

fun sqrt64 :: "double \<Rightarrow> double" where
  "sqrt64 (Num a) = (if 0 \<le> a then fl (sqrt a) else NotANumber)"
| "sqrt64 PosInf = PosInf"
| "sqrt64 NegInf = NotANumber"
| "sqrt64 NotANumber = NotANumber"

fun floor64 :: "double \<Rightarrow> double" where
  "floor64 (Num a) = Num (of_int \<lfloor>a\<rfloor>)"
| "floor64 PosInf = PosInf"
| "floor64 NegInf = NegInf"
| "floor64 NotANumber = NotANumber"

fun max64 :: "double \<Rightarrow> double \<Rightarrow> double" where
  "max64 NotANumber _ = NotANumber"
| "max64 _ NotANumber = NotANumber"
| "max64 a b = (if a < b then b else a)"

fun min64 :: "double \<Rightarrow> double \<Rightarrow> double" where
  "min64 NotANumber _ = NotANumber"
| "min64 _ NotANumber = NotANumber"
| "min64 a b = (if b < a then b else a)"

definition max_list64 :: "double list \<Rightarrow> double" where
  "max_list64 xs = fold (\<lambda>x m. max64 m x) xs NegInf"

fun pow64 :: "double \<Rightarrow> double \<Rightarrow> double" where
  "pow64 _ NotANumber = NotANumber"
| "pow64 NotANumber (Num e) = (if e = 0 then Num 1 else NotANumber)"
| "pow64 NotANumber _ = NotANumber"
| "pow64 (Num b) (Num e) =
     (if e = 0 then Num 1
      else if b = 0 then (if 0 < e then Num 0 else PosInf)
      else if b < 0 \<and> e \<noteq> of_int \<lfloor>e\<rfloor> then NotANumber
      else fl (real_pow b e))"
| "pow64 (Num b) PosInf =
     (if 1 < \<bar>b\<bar> then PosInf else if \<bar>b\<bar> = 1 then NotANumber else Num 0)"
| "pow64 (Num b) NegInf =
     (if 1 < \<bar>b\<bar> then Num 0 else if \<bar>b\<bar> = 1 then NotANumber else PosInf)"
| "pow64 PosInf (Num e) = (if e = 0 then Num 1 else if 0 < e then PosInf else Num 0)"
| "pow64 PosInf PosInf = PosInf"
| "pow64 PosInf NegInf = Num 0"
| "pow64 NegInf (Num e) =
     (if e = 0 then Num 1
      else if 0 < e then (if odd_integer e then NegInf else PosInf)
      else Num 0)"
| "pow64 NegInf PosInf = PosInf"
| "pow64 NegInf NegInf = Num 0"

fun truthy64 :: "double \<Rightarrow> bool" where
  "truthy64 (Num a) = (a \<noteq> 0)"
| "truthy64 NotANumber = False"
| "truthy64 _ = True"

definition or_else64 :: "double \<Rightarrow> double \<Rightarrow> double" where
  "or_else64 a b = (if truthy64 a then a else b)"

fun array_get64 :: "double list \<Rightarrow> double \<Rightarrow> double option" where
  "array_get64 xs (Num i) =
     (if i = of_int \<lfloor>i\<rfloor> \<and> 0 \<le> i \<and> i < real (length xs) then Some (xs ! nat \<lfloor>i\<rfloor>) else None)"
| "array_get64 xs _ = None"

definition array_get_or_zero64 :: "double list \<Rightarrow> double \<Rightarrow> double" where
  "array_get_or_zero64 xs i =
     (case array_get64 xs i of None \<Rightarrow> Num 0 | Some v \<Rightarrow> or_else64 v (Num 0))"

section \<open>The program on doubles\<close>

text \<open>
  The functions of \<open>src/scripts.js\<close> that the magnitude-dependent statements are
  about, once more, with the same expressions in the same order, on doubles.  Each
  keeps its name, followed by \<open>64\<close>.
\<close>

subsection \<open>Spring\<close>

record Spring64 =
  value64 :: double
  target64 :: double
  velocity64 :: double
  stiffness64 :: double
  damping64 :: double

definition Spring_constructor64 :: "double \<Rightarrow> double option \<Rightarrow> double option \<Rightarrow> Spring64" where
  "Spring_constructor64 v k c =
     \<lparr> value64 = v,
       target64 = v,
       velocity64 = Num 0,
       stiffness64 = (case k of None \<Rightarrow> Num 300 | Some k' \<Rightarrow> k'),
       damping64 = (case c of None \<Rightarrow> Num 20 | Some c' \<Rightarrow> c') \<rparr>"

definition setTarget64 :: "double \<Rightarrow> Spring64 \<Rightarrow> Spring64" where
  "setTarget64 t s = s\<lparr>target64 := t\<rparr>"

definition update64 :: "double \<Rightarrow> Spring64 \<Rightarrow> double \<times> Spring64" where
  "update64 dt s =
     (let force = (target64 s - value64 s) * stiffness64 s;
          dampingForce = velocity64 s * damping64 s;
          s1 = s\<lparr>velocity64 := velocity64 s + (force - dampingForce) * dt\<rparr>;
          s2 = s1\<lparr>value64 := value64 s1 + velocity64 s1 * dt\<rparr>
      in (value64 s2, s2))"

definition isSettled64 :: "Spring64 \<Rightarrow> bool" where
  "isSettled64 s \<longleftrightarrow>
     abs64 (target64 s - value64 s) < literal 0.001 \<and> abs64 (velocity64 s) < literal 0.001"

text \<open>\<open>n\<close> consecutive calls of \<open>update(dt)\<close>, the target never touched in between.\<close>

fun updates64 :: "nat \<Rightarrow> double \<Rightarrow> Spring64 \<Rightarrow> Spring64" where
  "updates64 0 dt s = s"
| "updates64 (Suc n) dt s = updates64 n dt (snd (update64 dt s))"

subsection \<open>Surface profiles and the 1D refraction sampler\<close>

fun SurfaceEquations64 :: "surface \<Rightarrow> double \<Rightarrow> double" where
  "SurfaceEquations64 convex_circle x = sqrt64 (Num 1 - pow64 (Num 1 - x) (Num 2))"
| "SurfaceEquations64 convex_squircle x =
     pow64 (Num 1 - pow64 (Num 1 - x) (Num 4)) (Num 1 / Num 4)"
| "SurfaceEquations64 concave x = Num 1 - sqrt64 (Num 1 - pow64 x (Num 2))"
| "SurfaceEquations64 lip x =
     (let convex = pow64 (Num 1 - pow64 (Num 1 - min64 (x * Num 2) (Num 1)) (Num 4))
                     (Num 1 / Num 4);
          concave = Num 1 - sqrt64 (Num 1 - pow64 (Num 1 - x) (Num 2)) + literal 0.1;
          smootherstep = Num 6 * pow64 x (Num 5) - Num 15 * pow64 x (Num 4)
                           + Num 10 * pow64 x (Num 3)
      in convex * (Num 1 - smootherstep) + concave * smootherstep)"

definition refract_k64 :: "double \<Rightarrow> double \<Rightarrow> double" where
  "refract_k64 eta normalY = (let dot = normalY in Num 1 - eta * eta * (Num 1 - dot * dot))"

definition refract64 :: "double \<Rightarrow> double \<Rightarrow> double \<Rightarrow> (double \<times> double) option" where
  "refract64 eta normalX normalY =
     (let dot = normalY;
          k = refract_k64 eta normalY
      in if k < Num 0 then None
         else (let kSqrt = sqrt64 k
               in Some (- (eta * dot + kSqrt) * normalX, eta - (eta * dot + kSqrt) * normalY)))"

definition sampleNormal64 :: "(double \<Rightarrow> double) \<Rightarrow> nat \<Rightarrow> nat \<Rightarrow> double \<times> double" where
  "sampleNormal64 surfaceFn samples i =
     (let x = count i / count samples;
          y = surfaceFn x;
          dx = (if x < Num 1 then literal 0.0001 else - literal 0.0001);
          y2 = surfaceFn (max64 (Num 0) (min64 (Num 1) (x + dx)));
          derivative = (y2 - y) / dx;
          magnitude = sqrt64 (derivative * derivative + Num 1)
      in (- derivative / magnitude, - Num 1 / magnitude))"

definition sample64 :: "double \<Rightarrow> double \<Rightarrow> (double \<Rightarrow> double) \<Rightarrow> double \<Rightarrow> nat \<Rightarrow> nat \<Rightarrow> double" where
  "sample64 glassThickness bezelWidth surfaceFn eta samples i =
     (let x = count i / count samples;
          y = surfaceFn x;
          normal = sampleNormal64 surfaceFn samples i;
          refracted = refract64 eta (fst normal) (snd normal)
      in case refracted of
           None \<Rightarrow> Num 0
         | Some (refracted0, refracted1) \<Rightarrow>
             (let remainingHeightOnBezel = y * bezelWidth;
                  remainingHeight = remainingHeightOnBezel + glassThickness
              in refracted0 * (remainingHeight / refracted1)))"

definition calculateDisplacementMap1D64 ::
  "double \<Rightarrow> double \<Rightarrow> (double \<Rightarrow> double) \<Rightarrow> double \<Rightarrow> nat option \<Rightarrow> double list" where
  "calculateDisplacementMap1D64 glassThickness bezelWidth surfaceFn refractiveIndex samples =
     (let eta = Num 1 / refractiveIndex
      in map (sample64 glassThickness bezelWidth surfaceFn eta (sampleCount samples))
           [0 ..< sampleCount samples])"

text \<open>
  The caller, \<open>updateFilter\<close>: the maximum of the absolute table entries, and the
  argument \<open>state.maximumDisplacement || 1\<close> it passes on.
\<close>

definition maximumDisplacement_of64 :: "double list \<Rightarrow> double" where
  "maximumDisplacement_of64 precomputed = max_list64 (map abs64 precomputed)"

definition normalizer64 :: "double list \<Rightarrow> double" where
  "normalizer64 precomputed = or_else64 (maximumDisplacement_of64 precomputed) (Num 1)"

subsection \<open>The channels of a pixel of the displacement field\<close>

definition cornerOffset64 :: "double \<Rightarrow> double \<Rightarrow> double \<Rightarrow> double" where
  "cornerOffset64 objectWidth radius x1 =
     (let widthBetweenRadiuses = objectWidth - radius * Num 2;
          isOnLeftSide = x1 < radius;
          isOnRightSide = objectWidth - radius \<le> x1
      in if isOnLeftSide then x1 - radius
         else if isOnRightSide then x1 - radius - widthBetweenRadiuses
         else Num 0)"

definition distanceToCenterSquared64 :: "nat \<Rightarrow> nat \<Rightarrow> double \<Rightarrow> nat \<Rightarrow> nat \<Rightarrow> double" where
  "distanceToCenterSquared64 objectWidth objectHeight radius x1 y1 =
     (let x = cornerOffset64 (count objectWidth) radius (count x1);
          y = cornerOffset64 (count objectHeight) radius (count y1)
      in x * x + y * y)"

definition isInBezel64 :: "double \<Rightarrow> double \<Rightarrow> double \<Rightarrow> bool" where
  "isInBezel64 radius bezelWidth dsq =
     (let radiusPlusOneSquared = (radius + Num 1) * (radius + Num 1);
          radiusMinusBezelSquared = max64 (Num 0) ((radius - bezelWidth) * (radius - bezelWidth))
      in dsq \<le> radiusPlusOneSquared \<and> radiusMinusBezelSquared \<le> dsq)"

definition edgeOpacity64 :: "double \<Rightarrow> double \<Rightarrow> double" where
  "edgeOpacity64 radius dsq =
     (let radiusSquared = radius * radius;
          radiusPlusOneSquared = (radius + Num 1) * (radius + Num 1)
      in if dsq < radiusSquared then Num 1
         else Num 1 - (sqrt64 dsq - sqrt64 radiusSquared)
                       / (sqrt64 radiusPlusOneSquared - sqrt64 radiusSquared))"

definition bezelRatio64 :: "double \<Rightarrow> double \<Rightarrow> double \<Rightarrow> double" where
  "bezelRatio64 radius bezelWidth dsq =
     (let distanceFromCenter = sqrt64 dsq;
          distanceFromSide = radius - distanceFromCenter
      in max64 (Num 0) (min64 (Num 1) (distanceFromSide / bezelWidth)))"

definition tableIndex64 :: "double \<Rightarrow> double \<Rightarrow> double list \<Rightarrow> double \<Rightarrow> double" where
  "tableIndex64 radius bezelWidth precomputedMap dsq =
     (let bezelIndex = floor64 (bezelRatio64 radius bezelWidth dsq * count (length precomputedMap))
      in max64 (Num 0) (min64 bezelIndex (count (length precomputedMap) - Num 1)))"

definition bezelChannels64 ::
  "nat \<Rightarrow> nat \<Rightarrow> double \<Rightarrow> double \<Rightarrow> double \<Rightarrow> double list \<Rightarrow> nat \<Rightarrow> nat \<Rightarrow> double \<times> double" where
  "bezelChannels64 objectWidth objectHeight radius bezelWidth maximumDisplacement precomputedMap x1 y1 =
     (let x = cornerOffset64 (count objectWidth) radius (count x1);
          y = cornerOffset64 (count objectHeight) radius (count y1);
          dsq = distanceToCenterSquared64 objectWidth objectHeight radius x1 y1;
          opacity = edgeOpacity64 radius dsq;
          distanceFromCenter = sqrt64 dsq;
          cos = (if Num 0 < distanceFromCenter then x / distanceFromCenter else Num 0);
          sin = (if Num 0 < distanceFromCenter then y / distanceFromCenter else Num 0);
          distance = array_get_or_zero64 precomputedMap (tableIndex64 radius bezelWidth precomputedMap dsq);
          dX = (if Num 0 < maximumDisplacement then (- cos * distance) / maximumDisplacement else Num 0);
          dY = (if Num 0 < maximumDisplacement then (- sin * distance) / maximumDisplacement else Num 0)
      in (max64 (Num 0) (min64 (Num 255) (Num 128 + dX * Num 127 * opacity)),
          max64 (Num 0) (min64 (Num 255) (Num 128 + dY * Num 127 * opacity))))"

section \<open>Auxiliary notions for the rounding analysis\<close>

text \<open>
  The unit roundoff \<open>2 ^ - 53\<close> and half the smallest positive double: rounding
  changes a real \<open>x\<close> by at most \<open>\<bar>x\<bar> * macheps + tiny\<close>.
\<close>

definition macheps :: real where
  "macheps = 1 / 2 ^ 53"

definition tiny :: real where
  "tiny = 1 / 2 ^ 1075"

text \<open>\<open>bounded64 k z\<close>: the double \<open>z\<close> is a number of magnitude at most \<open>2 ^ k\<close>.\<close>

definition bounded64 :: "nat \<Rightarrow> double \<Rightarrow> bool" where
  "bounded64 k z \<longleftrightarrow> (\<exists>v. z = Num v \<and> \<bar>v\<bar> \<le> 2 ^ k)"

text \<open>\<open>unit64 z\<close>: the double \<open>z\<close> is a number between 0 and 1.\<close>

definition unit64 :: "double \<Rightarrow> bool" where
  "unit64 z \<longleftrightarrow> (\<exists>v. z = Num v \<and> 0 \<le> v \<and> v \<le> 1)"

section \<open>Properties of the spring\<close>

text \<open>
  Claim C1.  One call of \<open>update(dt)\<close> is exactly the semi-implicit Euler step: the new
  velocity is \<open>velocity + ((target - value) * k - velocity * c) * dt\<close>, the new value is
  \<open>value + newVelocity * dt\<close>, the call returns the new value, and target, stiffness
  and damping are unchanged.
\<close>

theorem update_semi_implicit_euler:
  "update dt s =
     (value_f s + (velocity s + ((target s - value_f s) * stiffness s - velocity s * damping s) * dt) * dt,
      \<lparr> value_f = value_f s + (velocity s + ((target s - value_f s) * stiffness s - velocity s * damping s) * dt) * dt,
        target = target s,
        velocity = velocity s + ((target s - value_f s) * stiffness s - velocity s * damping s) * dt,
        stiffness = stiffness s,
        damping = damping s,
        \<dots> = Spring.more s \<rparr>)"
  by (simp add: update_def Let_def)

text \<open>
  Claim C10.  Right after construction the target is the initial value, the velocity is
  zero, and \<open>isSettled()\<close> holds, whatever the initial value and whether or not
  stiffness and damping are given.  Such a spring is also a fixed point of \<open>update\<close>:
  a frame that updates it returns the initial value and leaves it as it is, hence
  settled, so it gives the frame loop no reason to schedule another frame.
\<close>

theorem fresh_spring_settled:
  "target (Spring_constructor v k c) = v \<and>
   velocity (Spring_constructor v k c) = 0 \<and>
   isSettled (Spring_constructor v k c) \<and>
   update dt (Spring_constructor v k c) = (v, Spring_constructor v k c)"
  by (simp add: Spring_constructor_def isSettled_def update_def Let_def)



lemma update_keeps:
  "stiffness (snd (update dt s)) = stiffness s"
  "damping (snd (update dt s)) = damping s"
  "target (snd (update dt s)) = target s"
  by (simp_all add: update_def Let_def)

lemma updates_keeps:
  "stiffness (updates n dt s) = stiffness s \<and> damping (updates n dt s) = damping s
   \<and> target (updates n dt s) = target s"
  by (induction n arbitrary: s) (simp_all add: update_keeps)



























section \<open>Properties of the displacement field\<close>

lemma Fin_minus [simp]: "Fin a - Fin b = Fin (a - b)"
  by (simp add: minus_jsnum_def)

lemma array_set_length [simp]: "length (array_set d i v) = length d"
  by (cases i) simp_all

lemma array_set_nat:
  "array_set d (Fin (real k)) v = (if k < length d then d[k := toUint8Clamp v] else d)"
  by simp

lemma array_set_frame:
  "array_set d (Fin (real k)) v ! i = (if i = k \<and> k < length d then toUint8Clamp v else d ! i)"
  by (simp add: array_set_nat)

lemma fold_frame:
  "(\<And>x d. x \<in> set xs \<Longrightarrow> f x d ! i = d ! i) \<Longrightarrow> fold f xs d ! i = d ! i"
  by (induction xs arbitrary: d) simp_all

lemma fold_length:
  "(\<And>x d. x \<in> set xs \<Longrightarrow> length (f x d) = length d) \<Longrightarrow> length (fold f xs d) = length d"
  by (induction xs arbitrary: d) simp_all

lemma fill_prefix:
  "4 * m \<le> length d \<Longrightarrow>
   fold (\<lambda>p d. d[4 * p := 128, 4 * p + 1 := 128, 4 * p + 2 := 0, 4 * p + 3 := 255]) [0 ..< m] d ! i
     = (if i < 4 * m then neutral i else d ! i)
   \<and> length (fold (\<lambda>p d. d[4 * p := 128, 4 * p + 1 := 128, 4 * p + 2 := 0, 4 * p + 3 := 255]) [0 ..< m] d) = length d"
proof (induction m arbitrary: i)
  case 0
  then show ?case by simp
next
  case (Suc m)
  let ?f = "\<lambda>p d. d[4 * p := 128, 4 * p + 1 := 128, 4 * p + 2 := 0, 4 * p + 3 := (255::nat)]"
  let ?d = "fold ?f [0 ..< m] d"
  have len: "length ?d = length d" and pre: "\<And>i. ?d ! i = (if i < 4 * m then neutral i else d ! i)"
    using Suc.IH Suc.prems by simp_all
  have step: "fold ?f [0 ..< Suc m] d = ?f m ?d"
    by simp
  have r0: "(4 * m) mod 4 = 0" and r1: "(4 * m + 1) mod 4 = 1"
    and r2: "(4 * m + 2) mod 4 = 2" and r3: "(4 * m + 3) mod 4 = 3"
    by presburger+
  have m0: "neutral (4 * m) = 128"
    unfolding neutral_def r0 by simp
  have m1: "neutral (4 * m + 1) = 128"
    unfolding neutral_def r1 by simp
  have m2: "neutral (4 * m + 2) = 0"
    unfolding neutral_def r2 by simp
  have m3: "neutral (4 * m + 3) = 255"
    unfolding neutral_def r3 by simp
  consider "i < 4 * m" | "i = 4 * m" | "i = 4 * m + 1" | "i = 4 * m + 2" | "i = 4 * m + 3" | "4 * m + 4 \<le> i"
    by linarith
  then have "?f m ?d ! i = (if i < 4 * Suc m then neutral i else d ! i)"
  proof cases
    case 1
    then show ?thesis using pre[of i] by simp
  next
    case 2
    then show ?thesis using Suc.prems len m0 by simp
  next
    case 3
    then show ?thesis using Suc.prems len m1 by simp
  next
    case 4
    then show ?thesis using Suc.prems len m2 by simp
  next
    case 5
    then show ?thesis using Suc.prems len m3 by simp
  next
    case 6
    then show ?thesis using pre[of i] by simp
  qed
  then show ?case
    unfolding step using len by simp
qed

lemma fill_neutral_nth:
  "length d = 4 * n \<Longrightarrow> i < 4 * n \<Longrightarrow> fill_neutral d ! i = neutral i"
  using fill_prefix[of n d i] by (simp add: fill_neutral_def)

lemma fill_neutral_length: "length d = 4 * n \<Longrightarrow> length (fill_neutral d) = length d"
  using fill_prefix[of n d 0] by (simp add: fill_neutral_def)


lemma Fin_plus [simp]: "Fin a + Fin b = Fin (a + b)"
  by simp

lemma half_difference:
  assumes "ow \<le> cw" and "even (cw - ow)"
  shows "(real cw - real ow) / 2 = real ((cw - ow) div 2)"
proof -
  have "real ((cw - ow) div 2) = real (cw - ow) / real 2"
    using assms(2) by (intro real_of_nat_div) simp
  then show ?thesis
    using assms(1) by (simp add: of_nat_diff)
qed

lemma paint_index:
  assumes "ow \<le> cw" "even (cw - ow)" "oh \<le> ch" "even (ch - oh)"
  shows "(((Fin (real ch) - Fin (real oh)) / Fin 2 + Fin (real y1)) * Fin (real cw)
           + (Fin (real cw) - Fin (real ow)) / Fin 2 + Fin (real x1)) * Fin 4
         = Fin (real (canvasIndex cw ch ow oh x1 y1))"
  using half_difference[OF assms(1,2)] half_difference[OF assms(3,4)]
  by (simp add: canvasIndex_def algebra_simps)

lemma paint_outside:
  "\<not> isInBezel radius bezelWidth (distanceToCenterSquared ow oh radius x1 y1) \<Longrightarrow>
   paintDisplacement cw ch ow oh radius bezelWidth m t y1 x1 d = d"
  by (simp add: paintDisplacement_def Let_def)

lemma paint_frame:
  assumes "ow \<le> cw" "even (cw - ow)" "oh \<le> ch" "even (ch - oh)"
    and "i < canvasIndex cw ch ow oh x1 y1 \<or> canvasIndex cw ch ow oh x1 y1 + 3 < i"
  shows "paintDisplacement cw ch ow oh radius bezelWidth m t y1 x1 d ! i = d ! i"
proof -
  let ?k = "canvasIndex cw ch ow oh x1 y1"
  have k1: "Fin (real ?k) + Fin 1 = Fin (real (?k + 1))"
    and k2: "Fin (real ?k) + Fin 2 = Fin (real (?k + 2))"
    and k3: "Fin (real ?k) + Fin 3 = Fin (real (?k + 3))"
    by simp_all
  show ?thesis
    unfolding paintDisplacement_def Let_def paint_index[OF assms(1-4)] k1 k2 k3
    using assms(5) by (auto simp: array_set_frame split: prod.splits)
qed

lemma paint_length [simp]:
  "length (paintDisplacement cw ch ow oh radius bezelWidth m t y1 x1 d) = length d"
  by (simp add: paintDisplacement_def Let_def split: prod.splits)

lemma canvasIndex_unique:
  assumes "ow \<le> cw" "oh \<le> ch" "x1 < ow" "cx < cw" "j < 4"
    and "canvasIndex cw ch ow oh x1 y1 \<le> 4 * (cy * cw + cx) + j"
    and "4 * (cy * cw + cx) + j \<le> canvasIndex cw ch ow oh x1 y1 + 3"
  shows "cx = (cw - ow) div 2 + x1 \<and> cy = (ch - oh) div 2 + y1"
proof -
  let ?ox = "(cw - ow) div 2" and ?oy = "(ch - oh) div 2"
  have col: "?ox + x1 < cw"
    using assms(1,3) by linarith
  have "cy * cw + cx = (?oy + y1) * cw + (?ox + x1)"
    using assms(5,6,7) by (simp add: canvasIndex_def)
  then have eq: "cx + cy * cw = (?ox + x1) + (?oy + y1) * cw"
    by (simp add: add.commute)
  have "(cx + cy * cw) mod cw = cx" "(cx + cy * cw) div cw = cy"
    using assms(4) by simp_all
  moreover have "((?ox + x1) + (?oy + y1) * cw) mod cw = ?ox + x1"
    "((?ox + x1) + (?oy + y1) * cw) div cw = ?oy + y1"
    using col by simp_all
  ultimately show ?thesis
    using eq by metis
qed


lemma neutral_values:
  "neutral (4 * p) = 128" "neutral (4 * p + 1) = 128" "neutral (4 * p + 2) = 0" "neutral (4 * p + 3) = 255"
proof -
  have r0: "(4 * p) mod 4 = 0" and r1: "(4 * p + 1) mod 4 = 1"
    and r2: "(4 * p + 2) mod 4 = 2" and r3: "(4 * p + 3) mod 4 = 3"
    by presburger+
  show "neutral (4 * p) = 128"
    unfolding neutral_def r0 by simp
  show "neutral (4 * p + 1) = 128"
    unfolding neutral_def r1 by simp
  show "neutral (4 * p + 2) = 0"
    unfolding neutral_def r2 by simp
  show "neutral (4 * p + 3) = 255"
    unfolding neutral_def r3 by simp
qed

lemma displacement_data_untouched:
  assumes geo: "ow \<le> cw" "even (cw - ow)" "oh \<le> ch" "even (ch - oh)"
    and c: "cx < cw" and j: "j < 4"
    and outside: "cx < (cw - ow) div 2 \<or> (cw - ow) div 2 + ow \<le> cx \<or>
        cy < (ch - oh) div 2 \<or> (ch - oh) div 2 + oh \<le> cy \<or>
        \<not> isInBezel radius bezelWidth
            (distanceToCenterSquared ow oh radius (cx - (cw - ow) div 2) (cy - (ch - oh) div 2))"
  shows "fold (\<lambda>y1 d. fold (paintDisplacement cw ch ow oh radius bezelWidth m t y1) [0 ..< ow] d)
           [0 ..< oh] d0 ! (4 * (cy * cw + cx) + j)
         = d0 ! (4 * (cy * cw + cx) + j)"
proof (rule fold_frame)
  fix y1 d
  assume y1: "y1 \<in> set [0 ..< oh]"
  show "fold (paintDisplacement cw ch ow oh radius bezelWidth m t y1) [0 ..< ow] d ! (4 * (cy * cw + cx) + j)
        = d ! (4 * (cy * cw + cx) + j)"
  proof (rule fold_frame)
    fix x1 d'
    assume x1: "x1 \<in> set [0 ..< ow]"
    let ?i = "4 * (cy * cw + cx) + j"
    let ?k = "canvasIndex cw ch ow oh x1 y1"
    show "paintDisplacement cw ch ow oh radius bezelWidth m t y1 x1 d' ! ?i = d' ! ?i"
    proof (cases "isInBezel radius bezelWidth (distanceToCenterSquared ow oh radius x1 y1)")
      case False
      then show ?thesis by (simp add: paint_outside)
    next
      case True
      have "?i < ?k \<or> ?k + 3 < ?i"
      proof (rule ccontr)
        assume "\<not> (?i < ?k \<or> ?k + 3 < ?i)"
        then have "?k \<le> ?i" "?i \<le> ?k + 3" by simp_all
        with geo(1,3) x1 c j have "cx = (cw - ow) div 2 + x1 \<and> cy = (ch - oh) div 2 + y1"
          by (intro canvasIndex_unique) simp_all
        with outside True x1 y1 show False by auto
      qed
      then show ?thesis
        using geo by (intro paint_frame)
    qed
  qed
qed

lemma isInBezel_Fin:
  "isInBezel (Fin r) (Fin b) (Fin d) \<longleftrightarrow> d \<le> (r + 1) * (r + 1) \<and> max 0 ((r - b) * (r - b)) \<le> d"
  by (auto simp: isInBezel_def Let_def)

text \<open>
  Claim C4, amended.  When the object is no larger than the canvas and the margins
  \<open>canvasWidth - objectWidth\<close> and \<open>canvasHeight - objectHeight\<close> are even (every
  caller passes the object's size as the canvas size), the function returns an image in
  which every pixel that lies outside the object's box, or whose object coordinate the
  code does not classify as in the bezel band, holds \<open>(128, 128, 0, 255)\<close>.  By
  \<open>isInBezel_Fin\<close>, not in the band means a squared distance above \<open>(radius + 1)\<^sup>2\<close>
  or below the clamped \<open>(radius - bezelWidth)\<^sup>2\<close>.
\<close>

theorem displacement_outside_band_neutral:
  assumes "objectWidth \<le> canvasWidth" and "even (canvasWidth - objectWidth)"
    and "objectHeight \<le> canvasHeight" and "even (canvasHeight - objectHeight)"
    and "cx < canvasWidth" and "cy < canvasHeight"
    and "cx < (canvasWidth - objectWidth) div 2 \<or>
         (canvasWidth - objectWidth) div 2 + objectWidth \<le> cx \<or>
         cy < (canvasHeight - objectHeight) div 2 \<or>
         (canvasHeight - objectHeight) div 2 + objectHeight \<le> cy \<or>
         \<not> isInBezel radius bezelWidth
             (distanceToCenterSquared objectWidth objectHeight radius
                (cx - (canvasWidth - objectWidth) div 2) (cy - (canvasHeight - objectHeight) div 2))"
  shows "\<exists>img. calculateDisplacementMap2D canvasWidth canvasHeight objectWidth objectHeight radius
                  bezelWidth maximumDisplacement precomputedMap = Inr img
               \<and> pixel img cx cy = (128, 128, 0, 255)"
proof -
  let ?start = "fill_neutral (replicate (4 * canvasWidth * canvasHeight) 0)"
  let ?d = "fold (\<lambda>y1 d. fold (paintDisplacement canvasWidth canvasHeight objectWidth objectHeight
                radius bezelWidth maximumDisplacement precomputedMap y1) [0 ..< objectWidth] d)
              [0 ..< objectHeight] ?start"
  let ?img = "\<lparr> width = canvasWidth, height = canvasHeight, data = ?d \<rparr>"
  let ?p = "cy * canvasWidth + cx"
  have pos: "canvasWidth \<noteq> 0" "canvasHeight \<noteq> 0"
    using assms(5,6) by simp_all
  have res: "calculateDisplacementMap2D canvasWidth canvasHeight objectWidth objectHeight radius
                  bezelWidth maximumDisplacement precomputedMap = Inr ?img"
    using pos by (simp add: calculateDisplacementMap2D_def new_ImageData_def)
  have "?p < canvasHeight * canvasWidth"
  proof -
    have "?p < cy * canvasWidth + canvasWidth" using assms(5) by simp
    also have "\<dots> = Suc cy * canvasWidth" by simp
    also have "\<dots> \<le> canvasHeight * canvasWidth"
      using assms(6) by (intro mult_right_mono) simp_all
    finally show ?thesis .
  qed
  then have bound: "4 * ?p + j < 4 * (canvasWidth * canvasHeight)" if "j < 4" for j
    using that by (simp add: mult.commute)
  have len0: "length (replicate (4 * canvasWidth * canvasHeight) (0::nat)) = 4 * (canvasWidth * canvasHeight)"
    by (simp add: mult.assoc)
  have val: "?d ! (4 * ?p + j) = neutral (4 * ?p + j)" if "j < 4" for j
  proof -
    have "?d ! (4 * ?p + j) = ?start ! (4 * ?p + j)"
      by (rule displacement_data_untouched[OF assms(1-4) assms(5) that assms(7)])
    also have "\<dots> = neutral (4 * ?p + j)"
      using len0 bound[OF that] by (rule fill_neutral_nth)
    finally show ?thesis .
  qed
  have l: "(0::nat) < 4" "(1::nat) < 4" "(2::nat) < 4" "(3::nat) < 4"
    by simp_all
  have v0: "?d ! (4 * ?p) = 128"
    using val[OF l(1)] by (simp only: add_0_right neutral_values)
  have v1: "?d ! (4 * ?p + 1) = 128"
    using val[OF l(2)] by (simp only: neutral_values)
  have v2: "?d ! (4 * ?p + 2) = 0"
    using val[OF l(3)] by (simp only: neutral_values)
  have v3: "?d ! (4 * ?p + 3) = 255"
    using val[OF l(4)] by (simp only: neutral_values)
  have "pixel ?img cx cy = (128, 128, 0, 255)"
    by (simp only: pixel_def Let_def ImageData.select_convs v0 v1 v2 v3)
  with res show ?thesis by blast
qed

theorem displacement_outside_band_neutral_witness:
  "(2::nat) \<le> 2 \<and> even ((2::nat) - 2) \<and> (1::nat) < 2 \<and>
   \<not> isInBezel (Fin 1) (Fin (1/2)) (distanceToCenterSquared 2 2 (Fin 1) (1 - (2 - 2) div 2) (1 - (2 - 2) div 2)) \<and>
   (\<exists>img. calculateDisplacementMap2D 2 2 2 2 (Fin 1) (Fin (1/2)) (Fin 1) [Fin 1] = Inr img
       \<and> pixel img 1 1 = (128, 128, 0, 255))"
proof -
  have h1: "(2::nat) \<le> 2" and h2: "even ((2::nat) - 2)" and h3: "(1::nat) < 2"
    by simp_all
  have h4: "\<not> isInBezel (Fin 1) (Fin (1/2))
      (distanceToCenterSquared 2 2 (Fin 1) (1 - (2 - 2) div 2) (1 - (2 - 2) div 2))"
    by (simp add: isInBezel_def distanceToCenterSquared_def cornerOffset_def Let_def)
  have h5: "1 < (2 - 2) div 2 \<or> (2 - 2) div 2 + 2 \<le> (1::nat) \<or>
      1 < (2 - 2) div 2 \<or> (2 - 2) div 2 + 2 \<le> (1::nat) \<or>
      \<not> isInBezel (Fin 1) (Fin (1/2))
        (distanceToCenterSquared 2 2 (Fin 1) (1 - (2 - 2) div 2) (1 - (2 - 2) div 2))"
    using h4 by blast
  show ?thesis
    using h1 h2 h3 h4
      displacement_outside_band_neutral[OF h1 h2 h1 h2 h3 h3 h5, of "Fin 1" "[Fin 1]"]
    by blast
qed

lemma upt_0_4: "[0 ..< 4] = [0, 1, 2, 3]"
  by (simp add: upt_rec)

lemma upt_0_2: "[0 ..< 2] = [0, 1]"
  by (simp add: upt_rec)

lemma upt_0_5: "[0 ..< 5] = [0, 1, 2, 3, 4]"
  by (simp add: upt_rec)

lemma upt_0_1: "[0 ..< 1] = [0]"
  by (simp add: upt_rec)

lemma list_update_Cons_numeral:
  "(x # xs)[numeral v := y] = x # xs[numeral v - 1 := y]"
  by (simp add: numeral_eq_Suc)

lemma replicate_16: "replicate 16 x = [x, x, x, x, x, x, x, x, x, x, x, x, x, x, x, x]"
  by (simp add: eval_nat_numeral)

lemma replicate_20: "replicate 20 x = [x, x, x, x, x, x, x, x, x, x, x, x, x, x, x, x, x, x, x, x]"
  by (simp add: eval_nat_numeral)

text \<open>
  Claim C4, as stated for every canvas, fails in two ways.  First, a canvas of 2 by 2
  with an object of 4 by 2: \<open>objectX\<close> is \<open>-1\<close>, and the band pixel \<open>(3, 0)\<close> of the
  object is written at byte 8, the canvas pixel \<open>(0, 1)\<close>.  That canvas pixel has the
  object coordinate \<open>(1, 1)\<close>, whose squared distance 0 is below the inner bound
  \<open>(1/2 - 1/4)\<^sup>2\<close>, yet it ends as \<open>(128, 255, 0, 255)\<close>.  Second, a canvas of 5 by 1
  with an object of 2 by 1, radius 0 and bezel width 0: \<open>objectX\<close> is \<open>3/2\<close>, the two
  stores of four bytes start at bytes 6 and 10, and the canvas pixel 1, at the object
  coordinate \<open>-1/2\<close> left of the object's box, ends as \<open>(128, 128, 128, 128)\<close>.
\<close>

theorem displacement_canvas_mismatch:
  "calculateDisplacementMap2D 2 2 4 2 (Fin (1/2)) (Fin (1/4)) (Fin 1) [Fin 1]
     = Inr \<lparr> width = 2, height = 2,
             data = [128, 255, 0, 255,  255, 128, 0, 255,  128, 255, 0, 255,  128, 128, 0, 255] \<rparr> \<and>
   Fin 0 - (Fin 2 - Fin 4) / Fin 2 = Fin 1 \<and>
   Fin 1 - (Fin 2 - Fin 2) / Fin 2 = Fin 1 \<and>
   distanceToCenterSquared 4 2 (Fin (1/2)) 1 1 = Fin 0 \<and>
   \<not> isInBezel (Fin (1/2)) (Fin (1/4)) (distanceToCenterSquared 4 2 (Fin (1/2)) 1 1) \<and>
   calculateDisplacementMap2D 5 1 2 1 (Fin 0) (Fin 0) (Fin 1) [Fin 1]
     = Inr \<lparr> width = 5, height = 1,
             data = [128, 128, 0, 255,  128, 128, 128, 128,  0, 255, 128, 128,  0, 255, 0, 255,
                     128, 128, 0, 255] \<rparr> \<and>
   Fin 1 - (Fin 5 - Fin 2) / Fin 2 = Fin (- (1/2))"
proof -
  have a: "calculateDisplacementMap2D 2 2 4 2 (Fin (1/2)) (Fin (1/4)) (Fin 1) [Fin 1]
     = Inr \<lparr> width = 2, height = 2,
             data = [128, 255, 0, 255,  255, 128, 0, 255,  128, 255, 0, 255,  128, 128, 0, 255] \<rparr>"
    by (simp add: calculateDisplacementMap2D_def new_ImageData_def fill_neutral_def upt_0_4 upt_0_2
        paintDisplacement_def isInBezel_def distanceToCenterSquared_def cornerOffset_def
        Let_def real_sqrt_divide bezelChannels_def edgeOpacity_def tableIndex_def bezelRatio_def
        array_get_or_zero_def or_else_def round_half_even_def
        replicate_16 replicate_20 list_update_Cons_numeral)
  have b: "calculateDisplacementMap2D 5 1 2 1 (Fin 0) (Fin 0) (Fin 1) [Fin 1]
     = Inr \<lparr> width = 5, height = 1,
             data = [128, 128, 0, 255,  128, 128, 128, 128,  0, 255, 128, 128,  0, 255, 0, 255,
                     128, 128, 0, 255] \<rparr>"
    by (simp add: calculateDisplacementMap2D_def new_ImageData_def fill_neutral_def upt_0_5 upt_0_2
        upt_0_1 paintDisplacement_def isInBezel_def distanceToCenterSquared_def cornerOffset_def
        Let_def bezelChannels_def edgeOpacity_def tableIndex_def bezelRatio_def
        array_get_or_zero_def or_else_def round_half_even_def
        replicate_16 replicate_20 list_update_Cons_numeral)
  have c: "distanceToCenterSquared 4 2 (Fin (1/2)) 1 1 = Fin 0"
    by (simp add: distanceToCenterSquared_def cornerOffset_def Let_def)
  have d: "\<not> isInBezel (Fin (1/2)) (Fin (1/4)) (Fin 0)"
    by (simp add: isInBezel_def Let_def)
  show ?thesis
    unfolding c using a b d by simp
qed

lemma Math_max_Fin [simp]: "Math_max (Fin a) (Fin b) = Fin (max a b)"
  by (simp add: max_def)

lemma Math_min_Fin [simp]: "Math_min (Fin a) (Fin b) = Fin (min a b)"
  by (simp add: min_def)

lemma cornerOffset_Fin:
  "\<exists>x. cornerOffset (Fin w) (Fin r) (Fin p) = Fin x"
  by (simp add: cornerOffset_def Let_def)

lemma distanceToCenterSquared_Fin:
  "\<exists>d. distanceToCenterSquared ow oh (Fin r) x1 y1 = Fin d \<and> 0 \<le> d"
proof -
  obtain x where x: "cornerOffset (Fin (real ow)) (Fin r) (Fin (real x1)) = Fin x"
    using cornerOffset_Fin by blast
  obtain y where y: "cornerOffset (Fin (real oh)) (Fin r) (Fin (real y1)) = Fin y"
    using cornerOffset_Fin by blast
  show ?thesis
    by (simp add: distanceToCenterSquared_def Let_def x y)
qed

lemma bezelRatio_unit:
  assumes "0 \<le> d" and "b \<noteq> 0 \<or> sqrt d \<noteq> r"
  shows "\<exists>q. bezelRatio (Fin r) (Fin b) (Fin d) = Fin q \<and> 0 \<le> q \<and> q \<le> 1"
  using assms by (auto simp: bezelRatio_def Let_def)

lemma tableIndex_Fin:
  assumes "0 \<le> d" and "b \<noteq> 0 \<or> sqrt d \<noteq> r" and "t \<noteq> []"
  shows "\<exists>k<length t. tableIndex (Fin r) (Fin b) t (Fin d) = Fin (real k)"
proof -
  obtain q where q: "bezelRatio (Fin r) (Fin b) (Fin d) = Fin q" "0 \<le> q" "q \<le> 1"
    using bezelRatio_unit[OF assms(1,2)] by blast
  let ?n = "length t"
  let ?f = "\<lfloor>q * real ?n\<rfloor>"
  let ?k = "nat (min ?f (int ?n - 1))"
  have n: "0 < ?n" using assms(3) by simp
  have f0: "0 \<le> ?f" using q(2) by simp
  have idx: "tableIndex (Fin r) (Fin b) t (Fin d) = Fin (max 0 (min (of_int ?f) (real ?n - 1)))"
    by (simp only: tableIndex_def Let_def q times_jsnum.simps Math_floor.simps Fin_minus
        Math_min_Fin Math_max_Fin)
  have "max 0 (min (of_int ?f) (real ?n - 1)) = real ?k"
  proof -
    have "real ?n - 1 = real_of_int (int ?n - 1)"
      by simp
    then have "min (real_of_int ?f) (real ?n - 1) = real_of_int (min ?f (int ?n - 1))"
      by (simp only: of_int_min)
    moreover have "0 \<le> min ?f (int ?n - 1)"
      using f0 n by simp
    ultimately show ?thesis
      by simp
  qed
  moreover have "?k < ?n"
    using n f0 by linarith
  ultimately show ?thesis
    using idx by auto
qed


lemma array_get_nat:
  "k < length t \<Longrightarrow> array_get t (Fin (real k)) = Some (t ! k)"
  by simp

text \<open>
  Claim C9, amended.  For a finite radius and bezel width, a non-empty table and any
  pixel, in the band or not: unless the bezel width is zero and the pixel lies at
  distance exactly \<open>radius\<close> from its corner centre, the clamped index is a natural
  number below the length of the table, and the read returns that element.  This
  includes a ratio of 1, where the floor is the length itself and the clamp brings it
  back to the last element.
\<close>

theorem table_index_in_bounds:
  assumes "precomputedMap \<noteq> []"
    and "bezelWidth \<noteq> 0 \<or>
         Math_sqrt (distanceToCenterSquared objectWidth objectHeight (Fin radius) x1 y1) \<noteq> Fin radius"
  shows "\<exists>k<length precomputedMap.
           tableIndex (Fin radius) (Fin bezelWidth) precomputedMap
             (distanceToCenterSquared objectWidth objectHeight (Fin radius) x1 y1) = Fin (real k)
         \<and> array_get precomputedMap
             (tableIndex (Fin radius) (Fin bezelWidth) precomputedMap
               (distanceToCenterSquared objectWidth objectHeight (Fin radius) x1 y1))
           = Some (precomputedMap ! k)"
proof -
  obtain d where d: "distanceToCenterSquared objectWidth objectHeight (Fin radius) x1 y1 = Fin d" "0 \<le> d"
    using distanceToCenterSquared_Fin by blast
  have "bezelWidth \<noteq> 0 \<or> sqrt d \<noteq> radius"
    using assms(2) d by auto
  from tableIndex_Fin[OF d(2) this assms(1)]
  obtain k where k: "k < length precomputedMap"
    "tableIndex (Fin radius) (Fin bezelWidth) precomputedMap (Fin d) = Fin (real k)"
    by blast
  show ?thesis
    unfolding d(1) using k array_get_nat[OF k(1)] by (intro exI[of _ k]) (simp only: simp_thms)
qed

theorem table_index_in_bounds_witness:
  "[Fin 3, Fin 4] \<noteq> [] \<and>
   (1::real) \<noteq> 0 \<and>
   isInBezel (Fin 2) (Fin 1) (distanceToCenterSquared 8 8 (Fin 2) 1 2) \<and>
   bezelRatio (Fin 2) (Fin 1) (distanceToCenterSquared 8 8 (Fin 2) 1 2) = Fin 1 \<and>
   (\<exists>k<length [Fin 3, Fin 4].
        tableIndex (Fin 2) (Fin 1) [Fin 3, Fin 4] (distanceToCenterSquared 8 8 (Fin 2) 1 2) = Fin (real k)
      \<and> array_get [Fin 3, Fin 4]
           (tableIndex (Fin 2) (Fin 1) [Fin 3, Fin 4] (distanceToCenterSquared 8 8 (Fin 2) 1 2))
         = Some ([Fin 3, Fin 4] ! k))"
proof -
  have h1: "[Fin 3, Fin 4] \<noteq> []"
    by simp
  have h2: "(1::real) \<noteq> 0 \<or> Math_sqrt (distanceToCenterSquared 8 8 (Fin 2) 1 2) \<noteq> Fin 2"
    by simp
  have d: "distanceToCenterSquared 8 8 (Fin 2) 1 2 = Fin 1"
    by (simp add: distanceToCenterSquared_def cornerOffset_def Let_def)
  have h3: "isInBezel (Fin 2) (Fin 1) (distanceToCenterSquared 8 8 (Fin 2) 1 2)"
    unfolding d by (simp add: isInBezel_def Let_def)
  have h4: "bezelRatio (Fin 2) (Fin 1) (distanceToCenterSquared 8 8 (Fin 2) 1 2) = Fin 1"
    unfolding d by (simp add: bezelRatio_def Let_def)
  have h5: "(1::real) \<noteq> 0"
    by simp
  show ?thesis
    using h1 h5 h3 h4 table_index_in_bounds[OF h1 h2] by blast
qed

text \<open>
  Claim C9, as stated, fails for a bezel width of zero.  A pixel at distance exactly
  \<open>radius\<close> from its corner centre is in the band, \<open>distanceFromSide / bezelWidth\<close> is
  \<open>0 / 0\<close>, and the ratio, the floor and the clamped index are all \<open>NaN\<close>: the read
  finds no element, and \<open>|| 0\<close> turns the \<open>undefined\<close> into a displacement of 0.
\<close>

theorem table_index_zero_bezel:
  "[Fin 1] \<noteq> [] \<and>
   isInBezel (Fin 1) (Fin 0) (distanceToCenterSquared 4 4 (Fin 1) 0 1) \<and>
   tableIndex (Fin 1) (Fin 0) [Fin 1] (distanceToCenterSquared 4 4 (Fin 1) 0 1) = NaN \<and>
   array_get [Fin 1] (tableIndex (Fin 1) (Fin 0) [Fin 1] (distanceToCenterSquared 4 4 (Fin 1) 0 1)) = None \<and>
   array_get_or_zero [Fin 1] (tableIndex (Fin 1) (Fin 0) [Fin 1] (distanceToCenterSquared 4 4 (Fin 1) 0 1)) = Fin 0"
proof -
  have d: "distanceToCenterSquared 4 4 (Fin 1) 0 1 = Fin 1"
    by (simp add: distanceToCenterSquared_def cornerOffset_def Let_def)
  have i: "tableIndex (Fin 1) (Fin 0) [Fin 1] (Fin 1) = NaN"
    by (simp add: tableIndex_def bezelRatio_def Let_def)
  show ?thesis
    unfolding d i by (simp add: isInBezel_def Let_def array_get_or_zero_def)
qed

section \<open>Properties of the specular highlight\<close>

lemma specular_index:
  "(Fin (real y1) * Fin (real ow) + Fin (real x1)) * Fin 4 = Fin (real (4 * (y1 * ow + x1)))"
  by (simp add: algebra_simps)

lemma paintSpecular_outside:
  "\<not> isNearEdge radius (distanceToCenterSquared ow oh radius x1 y1) \<Longrightarrow>
   paintSpecular ow oh radius angle y1 x1 d = d"
  by (simp add: paintSpecular_def Let_def)

lemma paintSpecular_frame:
  assumes "i < 4 * (y1 * ow + x1) \<or> 4 * (y1 * ow + x1) + 3 < i"
  shows "paintSpecular ow oh radius angle y1 x1 d ! i = d ! i"
proof -
  define k where "k = 4 * (y1 * ow + x1)"
  have idx: "(Fin (real y1) * Fin (real ow) + Fin (real x1)) * Fin 4 = Fin (real k)"
    unfolding k_def by (rule specular_index)
  have k1: "Fin (real k) + Fin 1 = Fin (real (k + 1))"
    and k2: "Fin (real k) + Fin 2 = Fin (real (k + 2))"
    and k3: "Fin (real k) + Fin 3 = Fin (real (k + 3))"
    by simp_all
  have "i < k \<or> k + 3 < i"
    using assms by (simp add: k_def)
  then show ?thesis
    unfolding paintSpecular_def Let_def idx k1 k2 k3
    by (auto simp: array_set_frame split: prod.splits)
qed

lemma pixel_index_unique:
  fixes x1 y1 cx cy ow j :: nat
  assumes "x1 < ow" "cx < ow" "j < 4"
    and "4 * (y1 * ow + x1) \<le> 4 * (cy * ow + cx) + j"
    and "4 * (cy * ow + cx) + j \<le> 4 * (y1 * ow + x1) + 3"
  shows "cx = x1 \<and> cy = y1"
proof -
  have "cy * ow + cx = y1 * ow + x1"
    using assms(3,4,5) by simp
  then have eq: "cx + cy * ow = x1 + y1 * ow"
    by (simp add: add.commute)
  have "(cx + cy * ow) mod ow = cx" "(cx + cy * ow) div ow = cy"
    using assms(2) by simp_all
  moreover have "(x1 + y1 * ow) mod ow = x1" "(x1 + y1 * ow) div ow = y1"
    using assms(1) by simp_all
  ultimately show ?thesis
    using eq by metis
qed

lemma specular_data_untouched:
  assumes c: "cx < ow" and j: "j < 4"
    and outside: "\<not> isNearEdge radius (distanceToCenterSquared ow oh radius cx cy)"
  shows "fold (\<lambda>y1 d. fold (paintSpecular ow oh radius angle y1) [0 ..< ow] d)
           [0 ..< oh] start ! (4 * (cy * ow + cx) + j)
         = start ! (4 * (cy * ow + cx) + j)"
proof (rule fold_frame)
  fix y1 d
  assume y1: "y1 \<in> set [0 ..< oh]"
  show "fold (paintSpecular ow oh radius angle y1) [0 ..< ow] d ! (4 * (cy * ow + cx) + j)
        = d ! (4 * (cy * ow + cx) + j)"
  proof (rule fold_frame)
    fix x1 d'
    assume x1: "x1 \<in> set [0 ..< ow]"
    let ?i = "4 * (cy * ow + cx) + j"
    let ?k = "4 * (y1 * ow + x1)"
    show "paintSpecular ow oh radius angle y1 x1 d' ! ?i = d' ! ?i"
    proof (cases "isNearEdge radius (distanceToCenterSquared ow oh radius x1 y1)")
      case False
      then show ?thesis by (simp add: paintSpecular_outside)
    next
      case True
      have "?i < ?k \<or> ?k + 3 < ?i"
      proof (rule ccontr)
        assume "\<not> (?i < ?k \<or> ?k + 3 < ?i)"
        then have "?k \<le> ?i" "?i \<le> ?k + 3" by simp_all
        with x1 c j have "cx = x1 \<and> cy = y1"
          by (intro pixel_index_unique) simp_all
        with outside True show False by simp
      qed
      then show ?thesis
        by (rule paintSpecular_frame)
    qed
  qed
qed

lemma inside_not_near_edge:
  assumes "dsq < (Fin radius - Fin 1.5) * (Fin radius - Fin 1.5)"
  shows "\<not> isNearEdge (Fin radius) dsq"
proof (cases dsq)
  case (Fin d)
  then have "d < (radius - 1.5) * (radius - 1.5)"
    using assms by simp
  then have "\<not> max 0 ((radius - 1.5) * (radius - 1.5)) \<le> d"
    by simp
  then show ?thesis
    using Fin by (simp only: isNearEdge_def Let_def Fin_minus times_jsnum.simps Math_max_Fin
        less_eq_jsnum.simps simp_thms)
next
  case PInf
  then show ?thesis using assms by simp
next
  case NInf
  then show ?thesis by (simp add: isNearEdge_def Let_def)
next
  case NaN
  then show ?thesis using assms by simp
qed

text \<open>
  Claim C6.  In the image returned by \<open>calculateSpecularHighlight\<close>, a pixel whose
  squared distance to its corner centre is below \<open>(radius - 1.5)\<^sup>2\<close> is never
  written: all four channels, alpha among them, are 0.
\<close>

theorem specular_interior_transparent:
  assumes "x1 < objectWidth" and "y1 < objectHeight"
    and "distanceToCenterSquared objectWidth objectHeight (Fin radius) x1 y1
           < (Fin radius - Fin 1.5) * (Fin radius - Fin 1.5)"
  shows "\<exists>img. calculateSpecularHighlight objectWidth objectHeight (Fin radius) bezelWidth specularAngle
                 = Inr img
               \<and> pixel img x1 y1 = (0, 0, 0, 0)"
proof -
  let ?angle = "case specularAngle of None \<Rightarrow> Fin (pi / 3) | Some a \<Rightarrow> a"
  let ?start = "replicate (4 * objectWidth * objectHeight) (0::nat)"
  let ?d = "fold (\<lambda>y1 d. fold (paintSpecular objectWidth objectHeight (Fin radius) ?angle y1)
                [0 ..< objectWidth] d) [0 ..< objectHeight] ?start"
  let ?img = "\<lparr> width = objectWidth, height = objectHeight, data = ?d \<rparr>"
  let ?p = "y1 * objectWidth + x1"
  have pos: "objectWidth \<noteq> 0" "objectHeight \<noteq> 0"
    using assms(1,2) by simp_all
  have res: "calculateSpecularHighlight objectWidth objectHeight (Fin radius) bezelWidth specularAngle
                 = Inr ?img"
    using pos by (simp add: calculateSpecularHighlight_def new_ImageData_def)
  have out: "\<not> isNearEdge (Fin radius) (distanceToCenterSquared objectWidth objectHeight (Fin radius) x1 y1)"
    using assms(3) by (rule inside_not_near_edge)
  have "?p < objectHeight * objectWidth"
  proof -
    have "?p < y1 * objectWidth + objectWidth" using assms(1) by simp
    also have "\<dots> = Suc y1 * objectWidth" by simp
    also have "\<dots> \<le> objectHeight * objectWidth"
      using assms(2) by (intro mult_right_mono) simp_all
    finally show ?thesis .
  qed
  then have bound: "4 * ?p + j < 4 * objectWidth * objectHeight" if "j < 4" for j
    using that by (simp add: mult.commute)
  have val: "?d ! (4 * ?p + j) = 0" if "j < 4" for j
  proof -
    have "?d ! (4 * ?p + j) = ?start ! (4 * ?p + j)"
      by (rule specular_data_untouched[OF assms(1) that out])
    also have "\<dots> = 0"
      using bound[OF that] by (rule nth_replicate)
    finally show ?thesis .
  qed
  have l: "(0::nat) < 4" "(1::nat) < 4" "(2::nat) < 4" "(3::nat) < 4"
    by simp_all
  have v0: "?d ! (4 * ?p) = 0"
    using val[OF l(1)] by (simp only: add_0_right)
  have "pixel ?img x1 y1 = (0, 0, 0, 0)"
    by (simp only: pixel_def Let_def ImageData.select_convs v0 val[OF l(2)] val[OF l(3)] val[OF l(4)])
  with res show ?thesis by blast
qed

theorem specular_interior_transparent_witness:
  "(3::nat) < 8 \<and>
   distanceToCenterSquared 8 8 (Fin 3) 3 3 < (Fin 3 - Fin 1.5) * (Fin 3 - Fin 1.5) \<and>
   (\<exists>img. calculateSpecularHighlight 8 8 (Fin 3) (Fin 2) None = Inr img
        \<and> pixel img 3 3 = (0, 0, 0, 0))"
proof -
  have h1: "(3::nat) < 8"
    by simp
  have h2: "distanceToCenterSquared 8 8 (Fin 3) 3 3 < (Fin 3 - Fin 1.5) * (Fin 3 - Fin 1.5)"
    by (simp add: distanceToCenterSquared_def cornerOffset_def Let_def)
  show ?thesis
    using h1 h2 specular_interior_transparent[OF h1 h1 h2, of "Fin 2" None] by blast
qed

section \<open>Properties of the sampler\<close>

lemma Math_pow_nat:
  assumes "0 < n"
  shows "Math_pow (Fin b) (Fin (real n)) = Fin (b ^ n)"
proof -
  have "real_pow b (real n) = b ^ n"
    by (simp add: real_pow_def)
  then show ?thesis
    using assms by simp
qed

declare Math_pow.simps [simp del]

lemma Math_pow_2 [simp]: "Math_pow (Fin b) (Fin 2) = Fin (b ^ 2)"
  using Math_pow_nat[of 2 b] by simp

lemma Math_pow_3 [simp]: "Math_pow (Fin b) (Fin 3) = Fin (b ^ 3)"
  using Math_pow_nat[of 3 b] by simp

lemma Math_pow_4 [simp]: "Math_pow (Fin b) (Fin 4) = Fin (b ^ 4)"
  using Math_pow_nat[of 4 b] by simp

lemma Math_pow_5 [simp]: "Math_pow (Fin b) (Fin 5) = Fin (b ^ 5)"
  using Math_pow_nat[of 5 b] by simp

lemma Math_pow_quarter:
  assumes "0 \<le> b"
  shows "Math_pow (Fin b) (Fin (1/4)) = Fin (b powr (1/4))"
proof -
  have "\<lfloor>1 / 4 :: real\<rfloor> = 0"
    by simp
  then have "real_pow b (1/4) = b powr (1/4)"
    by (simp add: real_pow_def)
  then show ?thesis
    using assms by (simp add: Math_pow.simps)
qed

lemma lip_0: "SurfaceEquations lip (Fin 0) = Fin 0"
  by (simp add: Let_def Math_pow_quarter)

lemma lip_1: "SurfaceEquations lip (Fin 1) = Fin (1/10)"
  by (simp add: Let_def Math_pow_quarter)




lemma sampleNormal_Fin:
  assumes i: "i < n"
    and y: "f (Fin (real i / real n)) = Fin y"
    and y2: "f (Fin (max 0 (min 1 (real i / real n + 1/10000)))) = Fin y2"
  shows "sampleNormal f n i =
           (Fin (fst (normal_of (slope y y2))), Fin (snd (normal_of (slope y y2))))"
proof -
  define D where "D = slope y y2"
  define M where "M = sqrt (D * D + 1)"
  have n: "real n \<noteq> 0" using i by simp
  have x: "Fin (real i) / Fin (real n) = Fin (real i / real n)"
    using n by simp
  have dx: "(if Fin (real i / real n) < Fin 1 then Fin 0.0001 else - Fin 0.0001) = Fin (1/10000)"
    using i by simp
  have arg: "Math_max (Fin 0) (Math_min (Fin 1) (Fin (real i / real n) + Fin (1/10000)))
      = Fin (max 0 (min 1 (real i / real n + 1/10000)))"
    by (simp only: plus_jsnum.simps Math_min_Fin Math_max_Fin)
  have der: "(Fin y2 - Fin y) / Fin (1/10000) = Fin D"
    by (simp add: D_def slope_def)
  have "0 \<le> D * D + 1"
    by (simp add: add_nonneg_nonneg)
  then have mag: "Math_sqrt (Fin D * Fin D + Fin 1) = Fin M"
    by (simp add: M_def)
  have "0 < D * D + 1"
    by (simp add: add_nonneg_pos)
  then have M: "M \<noteq> 0"
    by (simp add: M_def)
  have "sampleNormal f n i = (- Fin D / Fin M, - Fin 1 / Fin M)"
    by (simp only: sampleNormal_def Let_def x dx arg y y2 der mag)
  also have "\<dots> = (Fin (- D / M), Fin (- 1 / M))"
    using M by simp
  finally show ?thesis
    by (simp only: D_def M_def normal_of_def fst_conv snd_conv)
qed






text \<open>
  Claim C5.  The function always returns a table with one entry for each sample, and
  at every sample whose \<open>k\<close> is negative the entry is 0, whatever the arguments and
  the surface function.
\<close>

theorem total_internal_reflection_zero:
  assumes "i < sampleCount samples"
    and "refract_k (Fin 1 / refractiveIndex) (snd (sampleNormal surfaceFn (sampleCount samples) i)) < Fin 0"
  shows "length (calculateDisplacementMap1D glassThickness bezelWidth surfaceFn refractiveIndex samples)
           = sampleCount samples
       \<and> calculateDisplacementMap1D glassThickness bezelWidth surfaceFn refractiveIndex samples ! i = Fin 0"
  using assms by (simp add: calculateDisplacementMap1D_def Let_def sample_def refract_def)

theorem total_internal_reflection_zero_witness:
  "(0::nat) < sampleCount (Some 1) \<and>
   refract_k (Fin 1 / Fin (1/2)) (snd (sampleNormal (SurfaceEquations convex_circle) (sampleCount (Some 1)) 0))
     < Fin 0 \<and>
   length (calculateDisplacementMap1D (Fin 80) (Fin 16) (SurfaceEquations convex_circle) (Fin (1/2)) (Some 1))
     = sampleCount (Some 1) \<and>
   calculateDisplacementMap1D (Fin 80) (Fin 16) (SurfaceEquations convex_circle) (Fin (1/2)) (Some 1) ! 0 = Fin 0"
proof -
  have h1: "(0::nat) < sampleCount (Some 1)"
    by (simp add: sampleCount_def)
  define y2 :: real where "y2 = sqrt (19999 / 100000000)"
  have s0: "SurfaceEquations convex_circle (Fin (real 0 / real 1)) = Fin 0"
    by simp
  have s1: "SurfaceEquations convex_circle (Fin (max 0 (min 1 (real 0 / real 1 + 1/10000)))) = Fin y2"
    by (simp add: y2_def power2_eq_square)
  have nrm: "sampleNormal (SurfaceEquations convex_circle) 1 0
      = (Fin (fst (normal_of (slope 0 y2))), Fin (snd (normal_of (slope 0 y2))))"
    by (rule sampleNormal_Fin[OF _ s0 s1]) simp
  have dd: "slope 0 y2 * slope 0 y2 = 19999"
    by (simp add: slope_def y2_def)
  define q where "q = snd (normal_of (slope 0 y2))"
  have qq: "q * q = 1 / 20000"
    by (simp add: q_def normal_of_def dd)
  have "refract_k (Fin 1 / Fin (1/2)) (Fin q) = Fin (1 - 4 * (1 - q * q))"
    by (simp add: refract_k_def Let_def)
  then have neg: "refract_k (Fin 1 / Fin (1/2)) (Fin q) < Fin 0"
    by (simp add: qq)
  have sc: "sampleCount (Some 1) = 1"
    by (simp add: sampleCount_def)
  have h2: "refract_k (Fin 1 / Fin (1/2))
      (snd (sampleNormal (SurfaceEquations convex_circle) (sampleCount (Some 1)) 0)) < Fin 0"
    unfolding sc nrm snd_conv q_def[symmetric] by (rule neg)
  show ?thesis
    using h1 h2 total_internal_reflection_zero[OF h1 h2] by blast
qed














section \<open>Rounding to the nearest double\<close>

text \<open>
  Facts on \<open>round_half_even\<close> and on \<open>rne\<close>: rounding is odd and monotone, it
  leaves a double unchanged, and it moves a real by at most half an \<open>ulp\<close>.
\<close>

lemma rhe_of_int: "round_half_even (of_int n) = n"
  by (simp add: round_half_even_def)

lemma rhe_error: "\<bar>of_int (round_half_even a) - a\<bar> \<le> 1/2"
proof -
  have "of_int \<lfloor>a\<rfloor> \<le> a" "a < of_int \<lfloor>a\<rfloor> + 1" by linarith+
  then show ?thesis by (auto simp: round_half_even_def Let_def)
qed

lemma rhe_bounds: "of_int \<lfloor>a\<rfloor> \<le> (of_int (round_half_even a)::real)"
  "(of_int (round_half_even a)::real) \<le> of_int \<lfloor>a\<rfloor> + 1"
  by (auto simp: round_half_even_def Let_def)

lemma rhe_mono:
  assumes "a \<le> b"
  shows "round_half_even a \<le> round_half_even b"
proof (cases "\<lfloor>a\<rfloor> < \<lfloor>b\<rfloor>")
  case True
  have "round_half_even a \<le> \<lfloor>a\<rfloor> + 1" by (auto simp: round_half_even_def Let_def)
  moreover have "\<lfloor>b\<rfloor> \<le> round_half_even b" by (auto simp: round_half_even_def Let_def)
  ultimately show ?thesis using True by linarith
next
  case False
  have "\<lfloor>a\<rfloor> \<le> \<lfloor>b\<rfloor>" using assms by (rule floor_mono)
  with False have eq: "\<lfloor>a\<rfloor> = \<lfloor>b\<rfloor>" by linarith
  have "a - of_int \<lfloor>b\<rfloor> \<le> b - of_int \<lfloor>b\<rfloor>" using assms by simp
  then show ?thesis unfolding round_half_even_def Let_def eq by auto
qed

lemma rhe_uminus: "round_half_even (- a) = - round_half_even a"
proof (cases "a = of_int \<lfloor>a\<rfloor>")
  case True
  then obtain n where "a = of_int n" ..
  then show ?thesis using rhe_of_int[of n] rhe_of_int[of "- n"] by simp
next
  case False
  have fl: "of_int \<lfloor>a\<rfloor> \<le> a" "a < of_int \<lfloor>a\<rfloor> + 1" by linarith+
  with False have lt: "of_int \<lfloor>a\<rfloor> < a" by linarith
  have "\<lfloor>- a\<rfloor> = - \<lfloor>a\<rfloor> - 1"
  proof (rule floor_unique)
    show "of_int (- \<lfloor>a\<rfloor> - 1) \<le> - a"
      unfolding of_int_diff of_int_minus of_int_1 by linarith
    show "- a < of_int (- \<lfloor>a\<rfloor> - 1) + 1"
      using lt unfolding of_int_diff of_int_minus of_int_1 by linarith
  qed
  then have g: "\<lfloor>- a\<rfloor> = - \<lfloor>a\<rfloor> - 1" .
  have par: "even (- \<lfloor>a\<rfloor> - 1) \<longleftrightarrow> odd \<lfloor>a\<rfloor>" by simp
  have r: "- a - of_int (- \<lfloor>a\<rfloor> - 1) = 1 - (a - of_int \<lfloor>a\<rfloor>)" by simp
  consider "a - of_int \<lfloor>a\<rfloor> < 1/2" | "1/2 < a - of_int \<lfloor>a\<rfloor>" | "a - of_int \<lfloor>a\<rfloor> = 1/2"
    by linarith
  then show ?thesis
  proof cases
    case 1
    then show ?thesis unfolding round_half_even_def Let_def g r by simp
  next
    case 2
    then show ?thesis unfolding round_half_even_def Let_def g r by simp
  next
    case 3
    then show ?thesis unfolding round_half_even_def Let_def g r par by simp
  qed
qed


lemma ulp_pos: "0 < ulp x"
  by (simp add: ulp_def)

lemma binade_uminus [simp]: "binade (- x) = binade x"
  by (simp add: binade_def)

lemma ulp_uminus [simp]: "ulp (- x) = ulp x"
  by (simp add: ulp_def)

lemma rne_uminus: "rne (- x) = - rne x"
  by (simp add: rne_def rhe_uminus)

lemma rne_0 [simp]: "rne 0 = 0"
  using rhe_of_int[of 0] by (simp add: rne_def)

lemma binade_subnormal: "\<bar>x\<bar> < 2 powr (- 1022) \<Longrightarrow> binade x = - 1022"
  by (simp add: binade_def)

lemma binade_normal:
  assumes "2 powr (- 1022) \<le> \<bar>x\<bar>"
  shows "2 powr (of_int (binade x)) \<le> \<bar>x\<bar>" and "\<bar>x\<bar> < 2 powr (of_int (binade x) + 1)"
proof -
  have "(0::real) < 2 powr (- 1022)" by simp
  with assms have pos: "0 < \<bar>x\<bar>" by linarith
  have b: "\<lfloor>log 2 \<bar>x\<bar>\<rfloor> = binade x" using assms by (simp add: binade_def)
  from b floor_log_eq_powr_iff[OF pos, of 2 "binade x"]
  show "2 powr (of_int (binade x)) \<le> \<bar>x\<bar>" and "\<bar>x\<bar> < 2 powr (of_int (binade x) + 1)"
    by simp_all
qed

lemma binade_ge: "- 1022 \<le> binade x"
proof (cases "\<bar>x\<bar> < 2 powr (- 1022)")
  case True
  then show ?thesis by (simp add: binade_def)
next
  case False
  then have n: "2 powr (- 1022) \<le> \<bar>x\<bar>" by simp
  from binade_normal(2)[OF n] n have "(2::real) powr (- 1022) < 2 powr (of_int (binade x) + 1)"
    by linarith
  then have "(- 1022::real) < of_int (binade x) + 1" by simp
  then show ?thesis by linarith
qed

lemma abs_lt_binade: "\<bar>x\<bar> < 2 powr (of_int (binade x) + 1)"
proof (cases "\<bar>x\<bar> < 2 powr (- 1022)")
  case True
  have "(2::real) powr (- 1022) \<le> 2 powr (of_int (binade x) + 1)"
    using binade_ge[of x] by (intro powr_mono) auto
  with True show ?thesis by linarith
next
  case False
  then show ?thesis using binade_normal(2)[of x] by simp
qed

lemma binade_mono:
  assumes "\<bar>x\<bar> \<le> \<bar>y\<bar>"
  shows "binade x \<le> binade y"
proof (cases "\<bar>x\<bar> < 2 powr (- 1022)")
  case True
  then show ?thesis using binade_ge[of y] by (simp add: binade_def)
next
  case False
  then have nx: "2 powr (- 1022) \<le> \<bar>x\<bar>" by simp
  with assms have ny: "2 powr (- 1022) \<le> \<bar>y\<bar>" by linarith
  have "(0::real) < 2 powr (- 1022)" by simp
  with nx have "0 < \<bar>x\<bar>" by linarith
  then have "log 2 \<bar>x\<bar> \<le> log 2 \<bar>y\<bar>" using assms by simp
  then have "\<lfloor>log 2 \<bar>x\<bar>\<rfloor> \<le> \<lfloor>log 2 \<bar>y\<bar>\<rfloor>" by (rule floor_mono)
  then show ?thesis using nx ny by (simp add: binade_def)
qed

lemma rne_error_ulp: "\<bar>rne x - x\<bar> \<le> ulp x / 2"
proof -
  have "rne x - x = (of_int (round_half_even (x / ulp x)) - x / ulp x) * ulp x"
    using ulp_pos[of x] by (simp add: rne_def field_simps)
  then have "\<bar>rne x - x\<bar> = \<bar>of_int (round_half_even (x / ulp x)) - x / ulp x\<bar> * ulp x"
    using ulp_pos[of x] by (simp add: abs_mult)
  also have "\<dots> \<le> (1/2) * ulp x"
    using rhe_error[of "x / ulp x"] ulp_pos[of x] by (intro mult_right_mono) auto
  finally show ?thesis by simp
qed

lemma ulp_le: "ulp x \<le> \<bar>x\<bar> * 2 powr (- 52) + 2 powr (- 1074)"
proof (cases "\<bar>x\<bar> < 2 powr (- 1022)")
  case True
  then have "ulp x = 2 powr (- 1074)" by (simp add: ulp_def binade_def)
  then show ?thesis by simp
next
  case False
  then have n: "2 powr (- 1022) \<le> \<bar>x\<bar>" by simp
  have "ulp x = 2 powr (of_int (binade x)) * 2 powr (- 52)"
    by (simp add: ulp_def powr_add[symmetric])
  also have "\<dots> \<le> \<bar>x\<bar> * 2 powr (- 52)"
    using binade_normal(1)[OF n] by (intro mult_right_mono) auto
  finally show ?thesis by (smt (verit) powr_gt_zero)
qed

lemma rne_error: "\<bar>rne x - x\<bar> \<le> \<bar>x\<bar> * macheps + tiny"
proof -
  have a: "(2::real) powr (- 52) / 2 = macheps" by (simp add: macheps_def powr_minus divide_simps)
  have b: "(2::real) powr (- 1074) / 2 = tiny" by (simp add: tiny_def powr_minus divide_simps)
  have "ulp x / 2 \<le> (\<bar>x\<bar> * 2 powr (- 52) + 2 powr (- 1074)) / 2"
    using ulp_le[of x] by (rule divide_right_mono) simp
  with rne_error_ulp[of x]
  have "\<bar>rne x - x\<bar> \<le> (\<bar>x\<bar> * 2 powr (- 52) + 2 powr (- 1074)) / 2"
    by (rule order_trans)
  also have "\<dots> = \<bar>x\<bar> * (2 powr (- 52) / 2) + 2 powr (- 1074) / 2" by (simp add: field_simps)
  finally show ?thesis unfolding a b .
qed

lemma rne_nonneg: "0 \<le> x \<Longrightarrow> 0 \<le> rne x"
proof -
  assume "0 \<le> x"
  then have "0 \<le> x / ulp x" using ulp_pos[of x] by simp
  then have "round_half_even 0 \<le> round_half_even (x / ulp x)" by (rule rhe_mono)
  then have "0 \<le> round_half_even (x / ulp x)" using rhe_of_int[of 0] by simp
  then show ?thesis using ulp_pos[of x] by (simp add: rne_def)
qed

lemma rne_mono_pos:
  assumes "0 < x" and "x \<le> y"
  shows "rne x \<le> rne y"
proof (cases "binade x = binade y")
  case True
  then have u: "ulp x = ulp y" by (simp add: ulp_def)
  have "x / ulp y \<le> y / ulp y" using assms ulp_pos[of y] by (simp add: divide_right_mono)
  then have "round_half_even (x / ulp y) \<le> round_half_even (y / ulp y)" by (rule rhe_mono)
  then show ?thesis using ulp_pos[of y] by (simp add: rne_def u)
next
  case False
  have "binade x \<le> binade y" using assms by (intro binade_mono) simp
  with False have lt: "binade x < binade y" by simp
  have ny: "2 powr (- 1022) \<le> \<bar>y\<bar>"
  proof (rule ccontr)
    assume "\<not> 2 powr (- 1022) \<le> \<bar>y\<bar>"
    then have "binade y = - 1022" by (simp add: binade_def)
    with lt binade_ge[of x] show False by simp
  qed
  define P where "P = (2::real) powr (of_int (binade y))"
  have "rne x \<le> 2 powr (of_int (binade x) + 1)"
  proof -
    have "x / ulp x \<le> 2 powr (of_int (binade x) + 1) / ulp x"
      using abs_lt_binade[of x] assms(1) ulp_pos[of x] by (intro divide_right_mono) auto
    also have "\<dots> = 2 powr 53" by (simp add: ulp_def powr_diff[symmetric])
    also have "\<dots> = of_int (2 ^ 53)" by simp
    finally have "round_half_even (x / ulp x) \<le> round_half_even (of_int (2 ^ 53))"
      by (rule rhe_mono)
    then have "round_half_even (x / ulp x) \<le> 2 ^ 53" unfolding rhe_of_int .
    then have "(of_int (round_half_even (x / ulp x))::real) \<le> of_int (2 ^ 53)"
      by (rule of_int_le_iff[THEN iffD2])
    then have "rne x \<le> of_int (2 ^ 53) * ulp x"
      unfolding rne_def using ulp_pos[of x] by (intro mult_right_mono) auto
    also have "\<dots> = 2 powr 53 * ulp x" by simp
    also have "\<dots> = 2 powr (53 + (of_int (binade x) - 52))"
      unfolding ulp_def by (simp only: powr_add)
    also have "53 + (of_int (binade x) - 52) = (of_int (binade x) + 1 :: real)" by linarith
    finally show ?thesis .
  qed
  also have "\<dots> \<le> P" unfolding P_def using lt by (intro powr_mono) auto
  also have "P \<le> rne y"
  proof -
    have ypos: "0 < y" using assms by linarith
    have "P / ulp y \<le> y / ulp y"
      using binade_normal(1)[OF ny] ypos ulp_pos[of y] unfolding P_def
      by (intro divide_right_mono) auto
    moreover have "P / ulp y = of_int (2 ^ 52)"
      by (simp add: P_def ulp_def powr_diff[symmetric])
    ultimately have "round_half_even (of_int (2 ^ 52)) \<le> round_half_even (y / ulp y)"
      by (intro rhe_mono) simp
    then have "2 ^ 52 \<le> round_half_even (y / ulp y)" unfolding rhe_of_int .
    then have "(of_int (2 ^ 52)::real) \<le> of_int (round_half_even (y / ulp y))"
      by (rule of_int_le_iff[THEN iffD2])
    then have "of_int (2 ^ 52) * ulp y \<le> rne y"
      unfolding rne_def using ulp_pos[of y] by (intro mult_right_mono) auto
    moreover have "of_int (2 ^ 52) * ulp y = P"
      by (simp add: P_def ulp_def powr_diff)
    ultimately show ?thesis by simp
  qed
  finally show ?thesis .
qed

lemma rne_mono:
  assumes "x \<le> y"
  shows "rne x \<le> rne y"
proof -
  consider "0 < x" | "x \<le> 0" "0 \<le> y" | "y < 0" by linarith
  then show ?thesis
  proof cases
    case 1
    then show ?thesis using assms by (rule rne_mono_pos)
  next
    case 2
    have "rne x \<le> 0" using rne_nonneg[of "- x"] 2(1) by (simp add: rne_uminus)
    moreover have "0 \<le> rne y" using 2(2) by (rule rne_nonneg)
    ultimately show ?thesis by linarith
  next
    case 3
    then have "0 < - y" "- y \<le> - x" using assms by simp_all
    then have "rne (- y) \<le> rne (- x)" by (rule rne_mono_pos)
    then show ?thesis by (simp add: rne_uminus)
  qed
qed


lemma rne_exact_lt:
  assumes "\<bar>m\<bar> < 2 ^ 53" and "- 1074 \<le> e"
  shows "rne (of_int m * 2 powr of_int e) = of_int m * 2 powr of_int e"
proof -
  define x :: real where "x = of_int m * 2 powr of_int e"
  have le: "binade x - 52 \<le> e"
  proof (cases "\<bar>x\<bar> < 2 powr (- 1022)")
    case True
    then show ?thesis using assms(2) by (simp add: binade_def)
  next
    case False
    then have n: "2 powr (- 1022) \<le> \<bar>x\<bar>" by simp
    have "\<bar>real_of_int m\<bar> < 2 powr 53" using assms(1) by (simp flip: of_int_abs)
    then have "\<bar>real_of_int m\<bar> * 2 powr of_int e < 2 powr 53 * 2 powr of_int e"
      by (rule mult_strict_right_mono) simp
    moreover have "\<bar>x\<bar> = \<bar>real_of_int m\<bar> * 2 powr of_int e"
      by (simp add: x_def abs_mult)
    ultimately have "\<bar>x\<bar> < 2 powr (53 + of_int e)"
      by (simp only: powr_add)
    with binade_normal(1)[OF n] have "(2::real) powr (of_int (binade x)) < 2 powr (53 + of_int e)"
      by linarith
    then have "real_of_int (binade x) < 53 + of_int e" by simp
    then show ?thesis by linarith
  qed
  define n where "n = nat (e - (binade x - 52))"
  have "real_of_int e - (real_of_int (binade x) - 52) = real n" using le by (simp add: n_def)
  then have "(2::real) powr (real_of_int e - (real_of_int (binade x) - 52)) = 2 ^ n"
    by (simp add: powr_realpow)
  then have "2 powr of_int e / ulp x = 2 ^ n" by (simp add: ulp_def powr_diff)
  moreover define u where "u = ulp x"
  ultimately have "2 powr of_int e / u = 2 ^ n" by simp
  moreover have "x / u = of_int m * (2 powr of_int e / u)" by (simp add: x_def)
  ultimately have "x / u = of_int (m * 2 ^ n)" by simp
  then have q: "x / ulp x = of_int (m * 2 ^ n)" by (simp add: u_def)
  then have "rne x = (x / ulp x) * ulp x" by (simp only: rne_def rhe_of_int)
  also have "\<dots> = x" using ulp_pos[of x] by simp
  finally show ?thesis unfolding x_def .
qed

lemma rne_exact:
  assumes "\<bar>m\<bar> \<le> 2 ^ 53" and "- 1074 \<le> e"
  shows "rne (of_int m * 2 powr of_int e) = of_int m * 2 powr of_int e"
proof (cases "\<bar>m\<bar> < 2 ^ 53")
  case True
  then show ?thesis using assms(2) by (rule rne_exact_lt)
next
  case False
  with assms(1) have m: "\<bar>m\<bar> = 2 ^ 53" by simp
  then have "m = 2 ^ 53 \<or> m = - (2 ^ 53)" by linarith
  then have m2: "m = 2 * (m div 2)" and lt: "\<bar>m div 2\<bar> < 2 ^ 53" by auto
  have "real_of_int m = 2 * real_of_int (m div 2)" by (subst m2) simp
  then have "real_of_int m * 2 powr of_int e = of_int (m div 2) * 2 powr of_int (e + 1)"
    by (simp add: powr_add)
  moreover have "rne (of_int (m div 2) * 2 powr of_int (e + 1)) = of_int (m div 2) * 2 powr of_int (e + 1)"
    using lt assms(2) by (intro rne_exact_lt) auto
  ultimately show ?thesis by simp
qed

lemma rne_of_int: "\<bar>m\<bar> \<le> 2 ^ 53 \<Longrightarrow> rne (of_int m) = of_int m"
  using rne_exact[of m 0] by simp

lemma rne_of_nat: "n \<le> 2 ^ 53 \<Longrightarrow> rne (real n) = real n"
  using rne_of_int[of "int n"] by simp

lemma rne_pow2: "- 1074 \<le> e \<Longrightarrow> rne (2 powr of_int e) = 2 powr of_int e"
  using rne_exact[of 1 e] by simp

lemma rne_le: "x \<le> b \<Longrightarrow> rne b = b \<Longrightarrow> rne x \<le> b"
  using rne_mono[of x b] by simp

lemma rne_ge: "a \<le> x \<Longrightarrow> rne a = a \<Longrightarrow> a \<le> rne x"
  using rne_mono[of a x] by simp

lemma rne_abs_bounds:
  shows "\<bar>rne x\<bar> \<le> 2 * \<bar>x\<bar>" and "rne x \<noteq> 0 \<Longrightarrow> \<bar>x\<bar> \<le> 3 / 2 * \<bar>rne x\<bar>"
proof -
  define k where "k = round_half_even (x / ulp x)"
  define y where "y = x / ulp x"
  have x: "x = y * ulp x" using ulp_pos[of x] by (simp add: y_def)
  have r: "rne x = of_int k * ulp x" by (simp add: rne_def k_def)
  have e: "\<bar>of_int k - y\<bar> \<le> 1/2" unfolding k_def y_def by (rule rhe_error)
  have ax: "\<bar>x\<bar> = \<bar>y\<bar> * ulp x" using ulp_pos[of x] by (subst x) (simp add: abs_mult)
  have ar: "\<bar>rne x\<bar> = \<bar>of_int k\<bar> * ulp x" using ulp_pos[of x] by (simp add: r abs_mult)
  show "\<bar>rne x\<bar> \<le> 2 * \<bar>x\<bar>"
  proof (cases "k = 0")
    case True
    then show ?thesis by (simp add: r)
  next
    case False
    then have "1 \<le> \<bar>k\<bar>" by linarith
    then have "1 \<le> \<bar>real_of_int k\<bar>" by (simp flip: of_int_abs)
    with e have "\<bar>real_of_int k\<bar> \<le> 2 * \<bar>y\<bar>" by linarith
    then have "\<bar>real_of_int k\<bar> * ulp x \<le> 2 * \<bar>y\<bar> * ulp x"
      using ulp_pos[of x] by (intro mult_right_mono) auto
    then show ?thesis by (simp add: ar ax)
  qed
  show "\<bar>x\<bar> \<le> 3 / 2 * \<bar>rne x\<bar>" if "rne x \<noteq> 0"
  proof -
    from that have "k \<noteq> 0" by (auto simp: r)
    then have "1 \<le> \<bar>k\<bar>" by linarith
    then have "1 \<le> \<bar>real_of_int k\<bar>" by (simp flip: of_int_abs)
    with e have "\<bar>y\<bar> \<le> 3 / 2 * \<bar>real_of_int k\<bar>" by linarith
    then have "\<bar>y\<bar> * ulp x \<le> 3 / 2 * \<bar>real_of_int k\<bar> * ulp x"
      using ulp_pos[of x] by (intro mult_right_mono) auto
    then show ?thesis by (simp add: ar ax)
  qed
qed

lemma rne_eq_0_imp:
  assumes "rne x = 0"
  shows "\<bar>x\<bar> \<le> tiny"
proof -
  have k: "round_half_even (x / ulp x) = 0" using assms ulp_pos[of x] by (simp add: rne_def)
  have "\<bar>of_int (round_half_even (x / ulp x)) - x / ulp x\<bar> \<le> 1/2" by (rule rhe_error)
  then have "\<bar>x / ulp x\<bar> \<le> 1/2" by (simp add: k)
  then have h: "\<bar>x\<bar> \<le> ulp x / 2" using ulp_pos[of x] by (simp add: field_simps)
  have sub: "\<bar>x\<bar> < 2 powr (- 1022)"
  proof (rule ccontr)
    assume "\<not> \<bar>x\<bar> < 2 powr (- 1022)"
    then have n: "2 powr (- 1022) \<le> \<bar>x\<bar>" by simp
    have "ulp x \<le> 2 powr (of_int (binade x))" unfolding ulp_def by (intro powr_mono) auto
    with binade_normal(1)[OF n] h ulp_pos[of x] show False by linarith
  qed
  then have "ulp x = 2 powr (- 1074)" by (simp add: ulp_def binade_def)
  moreover have "(2::real) powr (- 1074) / 2 = tiny" by (simp add: tiny_def powr_minus divide_simps)
  ultimately show ?thesis using h by simp
qed

section \<open>Arithmetic on doubles\<close>

text \<open>
  When the exact result is within range an operation returns its rounding; the
  lemmas on \<open>bounded64\<close> trace the magnitude of the intermediate values of a
  computation.
\<close>

lemma binade_eq:
  assumes "2 powr of_int b \<le> \<bar>x\<bar>" and "\<bar>x\<bar> < 2 powr (of_int b + 1)" and "- 1022 \<le> b"
  shows "binade x = b"
proof -
  have "(2::real) powr (- 1022) \<le> 2 powr of_int b" using assms(3) by (intro powr_mono) auto
  with assms(1) have n: "2 powr (- 1022) \<le> \<bar>x\<bar>" by linarith
  have "(0::real) < 2 powr (- 1022)" by simp
  with n have pos: "0 < \<bar>x\<bar>" by linarith
  have "\<lfloor>log 2 \<bar>x\<bar>\<rfloor> = b"
    using floor_log_eq_powr_iff[OF pos, of 2 b] assms(1,2) by simp
  then show ?thesis using n by (simp add: binade_def)
qed

lemma rhe_near:
  assumes "\<bar>a - of_int k\<bar> < 1/2"
  shows "round_half_even a = k"
proof (cases "of_int k \<le> a")
  case True
  have "\<lfloor>a\<rfloor> = k" by (rule floor_unique) (use True assms in linarith)+
  then show ?thesis using assms True by (simp add: round_half_even_def Let_def)
next
  case False
  have "\<lfloor>a\<rfloor> = k - 1"
  proof (rule floor_unique)
    show "of_int (k - 1) \<le> a" unfolding of_int_diff of_int_1 using assms by linarith
    show "a < of_int (k - 1) + 1" unfolding of_int_diff of_int_1 using False by linarith
  qed
  moreover have "\<not> a - (of_int k - 1) < 1/2" "1/2 < a - (of_int k - 1)" using assms False by linarith+
  ultimately show ?thesis by (simp add: round_half_even_def Let_def)
qed

lemma rne_near:
  assumes "binade x = b" and "f = of_int k * 2 powr (of_int b - 52)"
    and "\<bar>x - f\<bar> < 2 powr (of_int b - 52) / 2"
  shows "rne x = f"
proof -
  have u: "ulp x = 2 powr (of_int b - 52)" by (simp add: ulp_def assms(1))
  have "x / ulp x - of_int k = (x - f) / ulp x"
    using ulp_pos[of x] unfolding assms(2) u by (simp add: field_simps)
  then have "\<bar>x / ulp x - of_int k\<bar> = \<bar>x - f\<bar> / ulp x"
    using ulp_pos[of x] by (simp add: abs_divide)
  also have "\<dots> < 1/2" using assms(3) ulp_pos[of x] unfolding u by (simp add: field_simps)
  finally have "round_half_even (x / ulp x) = k" by (rule rhe_near)
  then show ?thesis by (simp add: rne_def u assms(2))
qed

lemma max_double_pos: "0 < max_double"
  by (simp add: max_double_def)

lemma fl_Num:
  assumes "\<bar>x\<bar> \<le> 2 ^ 1023"
  shows "fl x = Num (rne x)"
proof -
  define M :: real where "M = 2 ^ 1023"
  have e: "rne M = M" using rne_pow2[of 1023] by (simp add: M_def)
  from assms have "\<bar>x\<bar> \<le> M" by (simp only: M_def)
  then have ax: "x \<le> M" "- x \<le> M" by linarith+
  have "rne x \<le> M" using ax(1) e by (rule rne_le)
  moreover have "rne (- x) \<le> M" using ax(2) e by (rule rne_le)
  ultimately have "\<bar>rne x\<bar> \<le> M" by (simp add: rne_uminus)
  also have "M \<le> max_double" by (simp add: M_def max_double_def)
  finally show ?thesis by (simp add: fl_def)
qed

lemma rne_numeral [simp]:
  assumes "(numeral w :: real) \<le> 9007199254740992"
  shows "rne (numeral w) = numeral w"
proof -
  have "real_of_int (numeral w) \<le> real_of_int (2 ^ 53)" using assms by simp
  then have "(numeral w :: int) \<le> 2 ^ 53" by (rule of_int_le_iff[THEN iffD1])
  then show ?thesis using rne_of_int[of "numeral w"] by simp
qed

lemma rne_1 [simp]: "rne 1 = 1"
  using rne_of_nat[of 1] by simp

lemma fl_numeral [simp]:
  assumes "(numeral w :: real) \<le> 9007199254740992"
  shows "fl (numeral w) = Num (numeral w)"
proof -
  have p: "(0::real) \<le> numeral w" by simp
  have "(9007199254740992::real) \<le> 2 ^ 1023" by simp
  with assms have "(numeral w :: real) \<le> 2 ^ 1023" by (rule order_trans)
  with p have "\<bar>numeral w :: real\<bar> \<le> 2 ^ 1023" by (simp only: abs_of_nonneg)
  then show ?thesis by (simp only: fl_Num rne_numeral[OF assms])
qed

lemma fl_0 [simp]: "fl 0 = Num 0"
  by (simp add: fl_def max_double_def)

lemma fl_1 [simp]: "fl 1 = Num 1"
  by (simp add: fl_Num)

lemma fl_uminus: "fl (- x) = - fl x"
  using max_double_pos by (auto simp add: fl_def rne_uminus)

lemma fl_neg_numeral [simp]:
  "(numeral w :: real) \<le> 9007199254740992 \<Longrightarrow> fl (- numeral w) = Num (- numeral w)"
  by (simp add: fl_uminus)

lemma fl_neg_1 [simp]: "fl (- 1) = Num (- 1)"
  by (simp add: fl_uminus)

lemma count_0 [simp]: "count 0 = Num 0"
  by (simp add: count_def)

lemma count_numeral [simp]:
  "(numeral w :: real) \<le> 9007199254740992 \<Longrightarrow> count (numeral w) = Num (numeral w)"
  by (simp add: count_def)

lemma count_1 [simp]: "count 1 = Num 1"
  by (simp add: count_def)

lemma count_Suc_0 [simp]: "count (Suc 0) = Num 1"
  by (simp add: count_def)

lemma rhe_abs_le:
  assumes "\<bar>a\<bar> \<le> of_int n"
  shows "\<bar>round_half_even a\<bar> \<le> n"
proof -
  have "round_half_even a \<le> round_half_even (of_int n)" using assms by (intro rhe_mono) linarith
  moreover have "real_of_int (- n) \<le> a" using assms unfolding of_int_minus by linarith
  then have "round_half_even (of_int (- n)) \<le> round_half_even a" by (rule rhe_mono)
  ultimately show ?thesis unfolding rhe_of_int by linarith
qed

lemma rne_idem [simp]: "rne (rne x) = rne x"
proof -
  define k where "k = round_half_even (x / ulp x)"
  have "\<bar>x\<bar> < 2 powr (of_int (binade x) + 1)" by (rule abs_lt_binade)
  then have "\<bar>x\<bar> / ulp x \<le> 2 powr (of_int (binade x) + 1) / ulp x"
    using ulp_pos[of x] by (intro divide_right_mono) auto
  also have "\<dots> = 2 powr 53" by (simp add: ulp_def powr_diff[symmetric])
  also have "\<dots> = of_int (2 ^ 53)" by simp
  finally have "\<bar>x / ulp x\<bar> \<le> of_int (2 ^ 53)" using ulp_pos[of x] by (simp add: abs_divide)
  then have k: "\<bar>k\<bar> \<le> 2 ^ 53" unfolding k_def by (rule rhe_abs_le)
  have e: "- 1074 \<le> binade x - 52" using binade_ge[of x] by simp
  have "rne x = of_int k * 2 powr of_int (binade x - 52)"
    by (simp add: rne_def k_def ulp_def)
  then show ?thesis using rne_exact[OF k e] by simp
qed

lemma rne_rel:
  assumes "2 powr (- 1022) \<le> \<bar>x\<bar>"
  shows "\<bar>rne x - x\<bar> \<le> \<bar>x\<bar> * macheps"
proof -
  have "ulp x = 2 powr (of_int (binade x)) * 2 powr (- 52)"
    by (simp add: ulp_def powr_add[symmetric])
  also have "\<dots> \<le> \<bar>x\<bar> * 2 powr (- 52)"
    using binade_normal(1)[OF assms] by (intro mult_right_mono) auto
  finally have "ulp x / 2 \<le> \<bar>x\<bar> * 2 powr (- 52) / 2" by simp
  moreover have "(2::real) powr (- 52) / 2 = macheps" by (simp add: macheps_def powr_minus divide_simps)
  ultimately have "ulp x / 2 \<le> \<bar>x\<bar> * macheps" by simp
  with rne_error_ulp[of x] show ?thesis by linarith
qed

lemma rne_pos_ge:
  assumes "0 < rne x"
  shows "2 * tiny \<le> rne x"
proof -
  have "0 < round_half_even (x / ulp x)"
    using assms ulp_pos[of x] by (simp add: rne_def zero_less_mult_iff)
  then have "1 \<le> round_half_even (x / ulp x)" by linarith
  then have "(1::real) \<le> of_int (round_half_even (x / ulp x))" by linarith
  then have "1 * ulp x \<le> rne x" unfolding rne_def using ulp_pos[of x] by (intro mult_right_mono) auto
  moreover have "2 powr (- 1074) \<le> ulp x" unfolding ulp_def using binade_ge[of x] by (intro powr_mono) auto
  moreover have "(2::real) powr (- 1074) = 2 * tiny" by (simp add: tiny_def powr_minus divide_simps)
  ultimately show ?thesis by simp
qed

lemma rne_abs_le_pow2:
  assumes "\<bar>x\<bar> \<le> 2 ^ k"
  shows "\<bar>rne x\<bar> \<le> 2 ^ k"
proof -
  define M :: real where "M = 2 ^ k"
  have e: "rne M = M" using rne_pow2[of "int k"] by (simp add: M_def powr_realpow)
  from assms have "x \<le> M" "- x \<le> M" unfolding M_def by linarith+
  then have "rne x \<le> M" "rne (- x) \<le> M" using e by (auto intro: rne_le)
  then show ?thesis unfolding M_def by (simp add: rne_uminus)
qed

lemma bounded64I: "\<bar>v\<bar> \<le> 2 ^ k \<Longrightarrow> bounded64 k (Num v)"
  by (simp add: bounded64_def)

lemma bounded64_mono: "bounded64 j z \<Longrightarrow> j \<le> k \<Longrightarrow> bounded64 k z"
proof -
  assume a: "bounded64 j z" and b: "j \<le> k"
  then obtain v where v: "z = Num v" "\<bar>v\<bar> \<le> 2 ^ j" by (auto simp: bounded64_def)
  have "(2::real) ^ j \<le> 2 ^ k" using b by (intro power_increasing) auto
  with v(2) have "\<bar>v\<bar> \<le> 2 ^ k" by linarith
  then show ?thesis unfolding v(1) by (rule bounded64I)
qed

lemma fl_bounded:
  assumes "\<bar>x\<bar> \<le> 2 ^ k" and "k \<le> 1023"
  shows "fl x = Num (rne x)" and "\<bar>rne x\<bar> \<le> 2 ^ k" and "bounded64 k (fl x)"
proof -
  have "(2::real) ^ k \<le> 2 ^ 1023" using assms(2) by (intro power_increasing) auto
  with assms(1) have "\<bar>x\<bar> \<le> 2 ^ 1023" by linarith
  then show a: "fl x = Num (rne x)" by (rule fl_Num)
  show b: "\<bar>rne x\<bar> \<le> 2 ^ k" using assms(1) by (rule rne_abs_le_pow2)
  show "bounded64 k (fl x)" unfolding a using b by (rule bounded64I)
qed

lemma bounded64_uminus: "bounded64 k a \<Longrightarrow> bounded64 k (- a)"
  by (auto simp: bounded64_def)

lemma bounded64_add:
  assumes "bounded64 k a" and "bounded64 k b" and "k < 1023"
  shows "bounded64 (Suc k) (a + b)"
proof -
  from assms obtain x y where xy: "a = Num x" "\<bar>x\<bar> \<le> 2 ^ k" "b = Num y" "\<bar>y\<bar> \<le> 2 ^ k"
    by (auto simp: bounded64_def)
  then have "\<bar>x + y\<bar> \<le> 2 ^ Suc k" by simp
  then have "bounded64 (Suc k) (fl (x + y))" using assms(3) by (intro fl_bounded) auto
  then show ?thesis by (simp add: xy)
qed

lemma bounded64_diff:
  assumes "bounded64 k a" and "bounded64 k b" and "k < 1023"
  shows "bounded64 (Suc k) (a - b)"
  unfolding minus_double_def using assms by (intro bounded64_add bounded64_uminus)

lemma bounded64_mult:
  assumes "bounded64 j a" and "bounded64 k b" and "j + k \<le> 1023"
  shows "bounded64 (j + k) (a * b)"
proof -
  from assms obtain x y where xy: "a = Num x" "\<bar>x\<bar> \<le> 2 ^ j" "b = Num y" "\<bar>y\<bar> \<le> 2 ^ k"
    by (auto simp: bounded64_def)
  have "\<bar>x * y\<bar> = \<bar>x\<bar> * \<bar>y\<bar>" by (simp add: abs_mult)
  also have "\<dots> \<le> 2 ^ j * 2 ^ k" using xy by (intro mult_mono) auto
  finally have "\<bar>x * y\<bar> \<le> 2 ^ (j + k)" by (simp add: power_add)
  then have "bounded64 (j + k) (fl (x * y))" using assms(3) by (intro fl_bounded) auto
  then show ?thesis by (simp add: xy)
qed

lemma bounded64_sqrt:
  assumes "bounded64 (2 * k) a" and "k \<le> 1023"
  shows "bounded64 k (sqrt64 a) \<or> sqrt64 a = NotANumber"
proof -
  from assms obtain x where x: "a = Num x" "\<bar>x\<bar> \<le> 2 ^ (2 * k)" by (auto simp: bounded64_def)
  show ?thesis
  proof (cases "0 \<le> x")
    case True
    have "sqrt x \<le> sqrt ((2 ^ k)\<^sup>2)" using x(2) True by (intro real_sqrt_le_mono) (simp add: power_mult power2_eq_square flip: power_mult_distrib)
    then have "\<bar>sqrt x\<bar> \<le> 2 ^ k" using True by simp
    then have "bounded64 k (fl (sqrt x))" using assms(2) by (intro fl_bounded) auto
    then show ?thesis using True by (simp add: x)
  next
    case False
    then show ?thesis by (simp add: x)
  qed
qed

lemma macheps_bounds: "0 < macheps" "macheps \<le> 1 / 2 ^ 53"
  by (simp_all add: macheps_def)

lemma normal_ge: "1 / 16 \<le> (x::real) \<Longrightarrow> 2 powr (- 1022) \<le> \<bar>x\<bar>"
proof -
  assume a: "1 / 16 \<le> (x::real)"
  have "(2::real) powr (- 1022) \<le> 2 powr (- 4)" by (intro powr_mono) auto
  also have "\<dots> = 1 / 16" by (simp add: powr_minus divide_simps)
  finally show ?thesis using a by linarith
qed

lemma rne_rel_pos:
  assumes "1 / 16 \<le> x"
  shows "x * (1 - macheps) \<le> rne x" and "rne x \<le> x * (1 + macheps)"
proof -
  have "\<bar>rne x - x\<bar> \<le> \<bar>x\<bar> * macheps" using assms by (intro rne_rel normal_ge)
  moreover have "\<bar>x\<bar> = x" using assms by simp
  ultimately have "\<bar>rne x - x\<bar> \<le> x * macheps" by simp
  then show "x * (1 - macheps) \<le> rne x" and "rne x \<le> x * (1 + macheps)"
    by (simp_all add: algebra_simps abs_le_iff)
qed

lemma rne_sixteenth: "rne (1 / 16) = 1 / 16"
  using rne_exact[of 1 "- 4"] by (simp add: powr_minus divide_simps)

lemma rne_quarter: "rne (1 / 4) = 1 / 4"
  using rne_exact[of 1 "- 2"] by (simp add: powr_minus divide_simps)

lemma rne_half: "rne (1 / 2) = 1 / 2"
  using rne_exact[of 1 "- 1"] by (simp add: powr_minus divide_simps)

lemma den_lower_small:
  assumes "0 \<le> r" and "r \<le> 1 / 4"
  shows "3 / 4 \<le> rne (sqrt (rne (rne (r + 1) * rne (r + 1)))) - rne (sqrt (rne (r * r)))"
proof -
  have "r * r \<le> (1/4) * (1/4)" using assms by (intro mult_mono) auto
  then have "rne (r * r) \<le> 1 / 16" by (intro rne_le rne_sixteenth) simp
  then have "sqrt (rne (r * r)) \<le> sqrt ((1 / 4)\<^sup>2)"
    by (intro real_sqrt_le_mono) (simp add: power2_eq_square)
  then have "sqrt (rne (r * r)) \<le> 1 / 4" by simp
  then have s0: "rne (sqrt (rne (r * r))) \<le> 1 / 4" by (intro rne_le rne_quarter)
  have A: "1 \<le> rne (r + 1)" using assms(1) by (intro rne_ge) auto
  then have "1 * 1 \<le> rne (r + 1) * rne (r + 1)" by (intro mult_mono) auto
  then have "1 \<le> rne (rne (r + 1) * rne (r + 1))" by (intro rne_ge) auto
  then have "1 \<le> sqrt (rne (rne (r + 1) * rne (r + 1)))" by simp
  then have "1 \<le> rne (sqrt (rne (rne (r + 1) * rne (r + 1))))" by (intro rne_ge) auto
  with s0 show ?thesis by linarith
qed

lemma den_lower_large:
  assumes "1 / 4 \<le> r" and "r \<le> 2 ^ 40"
  shows "1 / 2 \<le> rne (sqrt (rne (rne (r + 1) * rne (r + 1)))) - rne (sqrt (rne (r * r)))"
proof -
  define u where "u = macheps"
  define c where "c = 1 - u"
  define e where "e = 1 + u"
  define a where "a = r + 1"
  define A where "A = rne a"
  define P where "P = rne (A * A)"
  define S1 where "S1 = rne (sqrt P)"
  define Q where "Q = rne (r * r)"
  define S0 where "S0 = rne (sqrt Q)"
  have u: "0 < u" "u \<le> 1 / 2 ^ 53" unfolding u_def by (rule macheps_bounds)+
  have c: "0 < c" "c \<le> 1" using u by (simp_all add: c_def)
  have e1: "1 \<le> e" using u by (simp add: e_def)
  have a1: "1 \<le> a" using assms by (simp add: a_def)
  have A_lo: "a * c \<le> A" unfolding A_def c_def u_def by (intro rne_rel_pos) (use a1 in linarith)
  have A1: "1 \<le> A" unfolding A_def using a1 by (intro rne_ge) auto
  have "1 * 1 \<le> A * A" using A1 by (intro mult_mono) auto
  then have AA1: "1 \<le> A * A" by simp
  have P_lo: "A * A * c \<le> P" unfolding P_def c_def u_def by (intro rne_rel_pos) (use AA1 in linarith)
  have P1: "1 \<le> P" unfolding P_def using AA1 by (intro rne_ge) auto
  have ac0: "0 \<le> a * c" using a1 c by simp
  have "(a * c) * (a * c) \<le> A * A" using A_lo ac0 by (intro mult_mono) auto
  then have "(a * c) * (a * c) * c \<le> A * A * c" using c by (intro mult_right_mono) auto
  with P_lo have P_lo2: "a * a * (c * c * c) \<le> P" by (simp add: algebra_simps)
  have "c * c * c * c \<le> c * c * c * 1" using c by (intro mult_left_mono) auto
  then have "a * a * (c * c * c * c) \<le> a * a * (c * c * c)" using a1 by (intro mult_left_mono) auto
  with P_lo2 have "(a * c * c)\<^sup>2 \<le> P" by (simp add: power2_eq_square algebra_simps)
  then have sP: "a * c * c \<le> sqrt P" by (rule real_le_rsqrt)
  have sP1: "1 \<le> sqrt P" using P1 by simp
  have "sqrt P * c \<le> S1" unfolding S1_def c_def u_def by (intro rne_rel_pos) (use sP1 in linarith)
  moreover have "a * c * c * c \<le> sqrt P * c" using sP c by (intro mult_right_mono) auto
  ultimately have S1_lo: "a * c * c * c \<le> S1" by linarith
  have "1 - 3 * u \<le> c * c * c"
  proof -
    have "c * c * c = 1 - 3 * u + u * u * (3 - u)" by (simp add: c_def algebra_simps)
    moreover have "0 \<le> u * u * (3 - u)" using u by (intro mult_nonneg_nonneg) auto
    ultimately show ?thesis by linarith
  qed
  then have "a * (1 - 3 * u) \<le> a * (c * c * c)" using a1 by (intro mult_left_mono) auto
  with S1_lo have S1_lo2: "a * (1 - 3 * u) \<le> S1" by (simp add: algebra_simps)
  have "(1/4) * (1/4) \<le> r * r" using assms by (intro mult_mono) auto
  then have rr: "1 / 16 \<le> r * r" by simp
  have Q_hi: "Q \<le> r * r * e" unfolding Q_def e_def u_def using rr by (intro rne_rel_pos)
  have Q_lo: "1 / 16 \<le> Q" unfolding Q_def using rr by (intro rne_ge rne_sixteenth)
  have r0: "0 \<le> r" using assms by simp
  have "r * r * e \<le> r * r * (e * e)"
  proof -
    have "e * 1 \<le> e * e" using e1 by (intro mult_left_mono) auto
    then show ?thesis using r0 by (intro mult_left_mono) auto
  qed
  with Q_hi have "Q \<le> (r * e)\<^sup>2" by (simp add: power2_eq_square algebra_simps)
  moreover have "0 \<le> r * e" using r0 e1 by simp
  ultimately have sQ: "sqrt Q \<le> r * e" by (intro real_le_lsqrt) auto
  have "sqrt ((1/4)\<^sup>2) \<le> sqrt Q" using Q_lo by (intro real_sqrt_le_mono) (simp add: power2_eq_square)
  then have sQ_lo: "1 / 4 \<le> sqrt Q" by simp
  have "S0 \<le> sqrt Q * e" unfolding S0_def e_def u_def by (intro rne_rel_pos) (use sQ_lo in linarith)
  moreover have "sqrt Q * e \<le> r * e * e" using sQ e1 by (intro mult_right_mono) auto
  ultimately have S0_hi: "S0 \<le> r * (e * e)" by (simp add: algebra_simps)
  have "e * e \<le> 1 + 3 * u"
  proof -
    have "e * e = 1 + 2 * u + u * u" by (simp add: e_def algebra_simps)
    moreover have "u * u \<le> u * 1" using u by (intro mult_left_mono) auto
    ultimately show ?thesis by simp
  qed
  then have "r * (e * e) \<le> r * (1 + 3 * u)" using r0 by (intro mult_left_mono) auto
  with S0_hi have S0_hi2: "S0 \<le> r * (1 + 3 * u)" by linarith
  have "r * u \<le> 2 ^ 40 * (1 / 2 ^ 53)" using assms u r0 by (intro mult_mono) auto
  then have ru: "r * u \<le> 1 / 8192" by simp
  have "a * (1 - 3 * u) - r * (1 + 3 * u) = 1 - 3 * u - 6 * (r * u)"
    by (simp add: a_def algebra_simps)
  with S1_lo2 S0_hi2 have "1 - 3 * u - 6 * (r * u) \<le> S1 - S0" by linarith
  moreover have "3 * u \<le> 1 / 4" using u by simp
  ultimately have "1 / 2 \<le> S1 - S0" using ru by linarith
  then show ?thesis unfolding S1_def S0_def P_def Q_def A_def a_def .
qed

lemma den_lower:
  assumes "0 \<le> r" and "r \<le> 2 ^ 40"
  shows "1 / 2 \<le> rne (sqrt (rne (rne (r + 1) * rne (r + 1)))) - rne (sqrt (rne (r * r)))"
proof (cases "r \<le> 1 / 4")
  case True
  then show ?thesis using den_lower_small[OF assms(1) True] by linarith
next
  case False
  then show ?thesis using assms(2) by (intro den_lower_large) auto
qed

section \<open>The values written to the displacement buffer\<close>

text \<open>
  The red and the green channel of a pixel, \<open>bezelChannels64\<close>, on doubles.  With
  radius and object size at most \<open>2 ^ 40\<close> every intermediate value stays in range,
  and the denominator of the opacity, the difference of the rounded roots of
  \<open>(radius + 1)\<^sup>2\<close> and \<open>radius\<^sup>2\<close>, stays above one half.
\<close>

lemma count_Num: "n \<le> 2 ^ 53 \<Longrightarrow> count n = Num (real n)"
proof -
  assume a: "n \<le> 2 ^ 53"
  then have "real n \<le> real (2 ^ 53)" by (rule of_nat_mono)
  then have "\<bar>real n\<bar> \<le> 2 ^ 53" by simp
  then have "fl (real n) = Num (rne (real n))" by (rule fl_bounded(1)) simp
  with rne_of_nat[OF a] show ?thesis by (simp add: count_def)
qed

lemma count_bounded:
  assumes "n \<le> 2 ^ k" and "k \<le> 53"
  shows "count n = Num (real n)" and "bounded64 k (count n)"
proof -
  have "(2::nat) ^ k \<le> 2 ^ 53" using assms(2) by (intro power_increasing) auto
  with assms(1) have "n \<le> 2 ^ 53" by linarith
  then show a: "count n = Num (real n)" by (rule count_Num)
  have "real n \<le> real (2 ^ k)" using assms(1) by (rule of_nat_mono)
  then have "\<bar>real n\<bar> \<le> 2 ^ k" by simp
  then show "bounded64 k (count n)" unfolding a by (rule bounded64I)
qed

lemma bounded64_numeral: "(numeral w :: real) \<le> 2 ^ k \<Longrightarrow> bounded64 k (Num (numeral w))"
  by (rule bounded64I) simp

lemma bounded64_0: "bounded64 k (Num 0)"
  by (rule bounded64I) simp

lemma bounded64_1: "bounded64 k (Num 1)"
  by (rule bounded64I) simp

lemma cornerOffset64_bounded:
  assumes "\<bar>r\<bar> \<le> 2 ^ 40" and "W \<le> 2 ^ 40" and "x1 \<le> 2 ^ 40"
  shows "bounded64 43 (cornerOffset64 (count W) (Num r) (count x1))"
proof -
  have bW: "bounded64 40 (count W)" using assms(2) by (intro count_bounded) auto
  have bx: "bounded64 40 (count x1)" using assms(3) by (intro count_bounded) auto
  have br: "bounded64 40 (Num r)" using assms(1) by (rule bounded64I)
  have "bounded64 (40 + 1) (Num r * Num 2)"
    by (intro bounded64_mult br bounded64_numeral) auto
  then have r2: "bounded64 41 (Num r * Num 2)" by simp
  have "bounded64 (Suc 41) (count W - Num r * Num 2)"
    by (intro bounded64_diff r2 bounded64_mono[OF bW]) auto
  then have wbr: "bounded64 42 (count W - Num r * Num 2)" by simp
  have "bounded64 (Suc 40) (count x1 - Num r)" by (intro bounded64_diff bx br) auto
  then have xr: "bounded64 41 (count x1 - Num r)" by simp
  have "bounded64 (Suc 42) (count x1 - Num r - (count W - Num r * Num 2))"
    by (intro bounded64_diff wbr bounded64_mono[OF xr]) auto
  then have xrw: "bounded64 43 (count x1 - Num r - (count W - Num r * Num 2))" by simp
  show ?thesis
    unfolding cornerOffset64_def Let_def
    using xrw bounded64_mono[OF xr, of 43] bounded64_0[of 43] by simp
qed

lemma cornerOffset64_negative_radius:
  assumes "r < 0" and "\<bar>r\<bar> \<le> 2 ^ 40" and "W \<le> 2 ^ 40" and "x1 < W"
  shows "cornerOffset64 (count W) (Num r) (count x1) = Num 0"
proof -
  have cW: "count W = Num (real W)" using assms(3) by (intro count_bounded(1)[where k = 40]) auto
  have cx: "count x1 = Num (real x1)" using assms(3,4) by (intro count_bounded(1)[where k = 40]) auto
  have "\<bar>real W - r\<bar> \<le> 2 ^ 41"
  proof -
    have "real W \<le> real (2 ^ 40)" using assms(3) by (rule of_nat_mono)
    then show ?thesis using assms(1,2) by simp
  qed
  then have f: "fl (real W - r) = Num (rne (real W - r))" by (rule fl_bounded(1)) simp
  have "W \<le> 2 ^ 53"
  proof -
    have "(2::nat) ^ 40 \<le> 2 ^ 53" by simp
    with assms(3) show ?thesis by linarith
  qed
  then have "rne (real W) = real W" by (rule rne_of_nat)
  then have "real W \<le> rne (real W - r)" using assms(1) by (intro rne_ge) auto
  moreover have "real x1 < real W" using assms(4) by simp
  ultimately have nr: "\<not> rne (real W - r) \<le> real x1" by linarith
  have "0 \<le> real x1" by simp
  with assms(1) have nl: "\<not> real x1 < r" by linarith
  show ?thesis
    unfolding cornerOffset64_def Let_def cW cx minus_double_def
    using nr nl by (simp add: f)
qed

lemma square_bounded:
  assumes "2 * k \<le> 1023" and "\<bar>x\<bar> \<le> 2 ^ k"
  shows "Num x * Num x = Num (rne (x * x))" and "0 \<le> rne (x * x)" and "rne (x * x) \<le> 2 ^ (2 * k)"
proof -
  have "\<bar>x * x\<bar> = \<bar>x\<bar> * \<bar>x\<bar>" by (simp add: abs_mult)
  also have "\<dots> \<le> 2 ^ k * 2 ^ k" using assms(2) by (intro mult_mono) auto
  finally have b: "\<bar>x * x\<bar> \<le> 2 ^ (2 * k)" by (simp add: power_add mult_2)
  then show "Num x * Num x = Num (rne (x * x))" using assms(1) by (simp add: fl_bounded(1))
  show "0 \<le> rne (x * x)" by (intro rne_nonneg) simp
  show "rne (x * x) \<le> 2 ^ (2 * k)" using fl_bounded(2)[OF b assms(1)] by linarith
qed

lemma distanceToCenterSquared64_form:
  assumes "\<bar>r\<bar> \<le> 2 ^ 40" and "W \<le> 2 ^ 40" and "H \<le> 2 ^ 40" and "x1 < W" and "y1 < H"
  obtains x y where "cornerOffset64 (count W) (Num r) (count x1) = Num x"
    and "cornerOffset64 (count H) (Num r) (count y1) = Num y"
    and "\<bar>x\<bar> \<le> 2 ^ 43" and "\<bar>y\<bar> \<le> 2 ^ 43"
    and "distanceToCenterSquared64 W H (Num r) x1 y1 = Num (rne (rne (x * x) + rne (y * y)))"
    and "r < 0 \<longrightarrow> x = 0 \<and> y = 0"
proof -
  have "bounded64 43 (cornerOffset64 (count W) (Num r) (count x1))"
    using assms by (intro cornerOffset64_bounded) auto
  then obtain x where x: "cornerOffset64 (count W) (Num r) (count x1) = Num x" "\<bar>x\<bar> \<le> 2 ^ 43"
    by (auto simp: bounded64_def)
  have "bounded64 43 (cornerOffset64 (count H) (Num r) (count y1))"
    using assms by (intro cornerOffset64_bounded) auto
  then obtain y where y: "cornerOffset64 (count H) (Num r) (count y1) = Num y" "\<bar>y\<bar> \<le> 2 ^ 43"
    by (auto simp: bounded64_def)
  have k: "2 * (43::nat) \<le> 1023" by simp
  note sx = square_bounded[OF k x(2)] and sy = square_bounded[OF k y(2)]
  have "\<bar>rne (x * x) + rne (y * y)\<bar> \<le> 2 ^ 87" using sx(2,3) sy(2,3) by simp
  then have "fl (rne (x * x) + rne (y * y)) = Num (rne (rne (x * x) + rne (y * y)))"
    by (rule fl_bounded(1)) simp
  moreover have "distanceToCenterSquared64 W H (Num r) x1 y1 = Num (rne (x * x)) + Num (rne (y * y))"
    unfolding distanceToCenterSquared64_def Let_def x(1) y(1) sx(1) sy(1) ..
  ultimately have d: "distanceToCenterSquared64 W H (Num r) x1 y1 = Num (rne (rne (x * x) + rne (y * y)))"
    by simp
  have n: "r < 0 \<longrightarrow> x = 0 \<and> y = 0"
    using cornerOffset64_negative_radius[OF _ assms(1,2,4)]
      cornerOffset64_negative_radius[OF _ assms(1,3,5)] x(1) y(1) by auto
  show ?thesis using that[OF x(1) y(1) x(2) y(2) d n] .
qed

lemma dsq_bounds:
  assumes "\<bar>x\<bar> \<le> 2 ^ 43" and "\<bar>y\<bar> \<le> 2 ^ 43"
  shows "0 \<le> rne (rne (x * x) + rne (y * y))" and "rne (rne (x * x) + rne (y * y)) \<le> 2 ^ 87"
proof -
  have k: "2 * (43::nat) \<le> 1023" by simp
  note sx = square_bounded[OF k assms(1)] and sy = square_bounded[OF k assms(2)]
  show "0 \<le> rne (rne (x * x) + rne (y * y))" using sx(2) sy(2) by (intro rne_nonneg) simp
  have "\<bar>rne (x * x) + rne (y * y)\<bar> \<le> 2 ^ 87" using sx(2,3) sy(2,3) by simp
  then have "\<bar>rne (rne (x * x) + rne (y * y))\<bar> \<le> 2 ^ 87" by (rule rne_abs_le_pow2)
  then show "rne (rne (x * x) + rne (y * y)) \<le> 2 ^ 87" by linarith
qed

lemma sqrt_bounded:
  assumes "k \<le> 1023" and "0 \<le> d" and "d \<le> 2 ^ (2 * k)"
  shows "sqrt64 (Num d) = Num (rne (sqrt d))" and "0 \<le> rne (sqrt d)" and "rne (sqrt d) \<le> 2 ^ k"
proof -
  have "sqrt d \<le> sqrt ((2 ^ k)\<^sup>2)"
    using assms(3) by (intro real_sqrt_le_mono) (simp add: power_mult power2_eq_square flip: power_mult_distrib)
  then have b: "\<bar>sqrt d\<bar> \<le> 2 ^ k" using assms(2) by simp
  show "sqrt64 (Num d) = Num (rne (sqrt d))" using assms(1,2) fl_bounded(1)[OF b] by simp
  show "0 \<le> rne (sqrt d)" using assms(2) by (intro rne_nonneg) simp
  show "rne (sqrt d) \<le> 2 ^ k" using fl_bounded(2)[OF b assms(1)] by linarith
qed

lemma bounded64_divide:
  assumes "bounded64 j a" and "1 / 2 \<le> D" and "j < 1023"
  shows "bounded64 (Suc j) (a / Num D)"
proof -
  from assms(1) obtain v where v: "a = Num v" "\<bar>v\<bar> \<le> 2 ^ j" by (auto simp: bounded64_def)
  have D: "0 < D" using assms(2) by linarith
  have "\<bar>v / D\<bar> = \<bar>v\<bar> / D" using D by (simp add: abs_divide)
  also have "\<dots> \<le> \<bar>v\<bar> / (1 / 2)" using assms(2) by (intro divide_left_mono) auto
  also have "\<dots> \<le> 2 ^ Suc j" using v(2) by simp
  finally have "bounded64 (Suc j) (fl (v / D))" using assms(3) by (intro fl_bounded) auto
  then show ?thesis using D by (simp add: v(1))
qed

lemma edgeOpacity64_bounded:
  assumes "0 \<le> r" and "r \<le> 2 ^ 40" and "0 \<le> d" and "d \<le> 2 ^ 87"
  shows "bounded64 47 (edgeOpacity64 (Num r) (Num d))"
proof -
  define Q where "Q = rne (r * r)"
  define A where "A = rne (r + 1)"
  define P where "P = rne (A * A)"
  define S0 where "S0 = rne (sqrt Q)"
  define S1 where "S1 = rne (sqrt P)"
  define sd where "sd = rne (sqrt d)"
  have ar: "\<bar>r\<bar> \<le> 2 ^ 40" using assms by simp
  have k40: "2 * (40::nat) \<le> 1023" and k41: "2 * (41::nat) \<le> 1023"
    and k: "(40::nat) \<le> 1023" "(41::nat) \<le> 1023" "(44::nat) \<le> 1023" "(42::nat) \<le> 1023"
    by simp_all
  note q = square_bounded[OF k40 ar, folded Q_def]
  have "\<bar>r + 1\<bar> \<le> 2 ^ 41" using assms by simp
  note a = fl_bounded(1,2)[OF this k(2), folded A_def]
  have rA: "Num r + Num 1 = Num A" using a(1) by simp
  note p = square_bounded[OF k41 a(2), folded P_def]
  have "Q \<le> 2 ^ (2 * 40)" using q(3) by simp
  note s0 = sqrt_bounded[OF k(1) q(2) this, folded S0_def]
  have "P \<le> 2 ^ (2 * 41)" using p(3) by simp
  note s1 = sqrt_bounded[OF k(2) p(2) this, folded S1_def]
  have "d \<le> 2 ^ (2 * 44)" using assms(4) by simp
  note s = sqrt_bounded[OF k(3) assms(3) this, folded sd_def]
  have den: "1 / 2 \<le> S1 - S0"
    unfolding S1_def S0_def P_def Q_def A_def using assms(1,2) by (rule den_lower)
  have "\<bar>S1 - S0\<bar> \<le> 2 ^ 42" using s0(2,3) s1(2,3) by simp
  note dn = fl_bounded(1)[OF this k(4)]
  have D: "Num S1 - Num S0 = Num (rne (S1 - S0))" using dn by (simp add: minus_double_def)
  have Dlo: "1 / 2 \<le> rne (S1 - S0)" using den by (intro rne_ge rne_half)
  have "bounded64 (Suc 44) (Num sd - Num S0)"
    using s(2,3) s0(2,3) by (intro bounded64_diff bounded64I) auto
  then have "bounded64 (Suc (Suc 44)) ((Num sd - Num S0) / Num (rne (S1 - S0)))"
    using Dlo by (intro bounded64_divide) auto
  then have "bounded64 46 ((Num sd - Num S0) / Num (rne (S1 - S0)))" by simp
  then have "bounded64 (Suc 46) (Num 1 - (Num sd - Num S0) / Num (rne (S1 - S0)))"
    by (intro bounded64_diff bounded64_1) auto
  then have e: "bounded64 47 (Num 1 - (Num sd - Num S0) / Num (rne (S1 - S0)))" by simp
  show ?thesis
    unfolding edgeOpacity64_def Let_def q(1) rA p(1) s(1) s0(1) s1(1) D
    using e bounded64_1[of 47] by simp
qed

lemma rne_between:
  assumes "a \<le> x" and "x \<le> b" and "rne a = a" and "rne b = b"
  shows "a \<le> rne x" and "rne x \<le> b"
  using assms by (auto intro: rne_ge rne_le)

lemma tiny_bounds: "0 < tiny" "tiny \<le> 1 / 4"
  by (simp_all add: tiny_def)

lemma edgeOpacity64_negative_radius:
  assumes "r < 0" and "\<bar>r\<bar> \<le> 2 ^ 40"
  shows "edgeOpacity64 (Num r) (Num 0) = Num 1"
proof -
  define Q where "Q = rne (r * r)"
  have k40: "2 * (40::nat) \<le> 1023" by simp
  note q = square_bounded[OF k40 assms(2), folded Q_def]
  show ?thesis
  proof (cases "0 < Q")
    case True
    then show ?thesis unfolding edgeOpacity64_def Let_def q(1) by simp
  next
    case False
    with q(2) have Q0: "Q = 0" by simp
    then have "\<bar>r * r\<bar> \<le> tiny" unfolding Q_def by (rule rne_eq_0_imp)
    with tiny_bounds have "r\<^sup>2 \<le> (1 / 2)\<^sup>2" by (simp add: power2_eq_square)
    then have "\<bar>r\<bar> \<le> 1 / 2" by (simp add: power2_le_iff_abs_le)
    with assms(1) have r: "1 / 2 \<le> r + 1" "r + 1 \<le> 1" by linarith+
    define A where "A = rne (r + 1)"
    have A: "1 / 2 \<le> A" "A \<le> 1"
      unfolding A_def using r rne_half rne_1 by (rule rne_between)+
    have "\<bar>r + 1\<bar> \<le> 2 ^ 0" using r by simp
    then have "fl (r + 1) = Num A" unfolding A_def by (rule fl_bounded(1)) simp
    then have rA: "Num r + Num 1 = Num A" by simp
    define P where "P = rne (A * A)"
    have "(1 / 2) * (1 / 2) \<le> A * A" using A by (intro mult_mono) auto
    moreover have "A * A \<le> 1 * 1" using A by (intro mult_mono) auto
    ultimately have AA: "1 / 4 \<le> A * A" "A * A \<le> 1" by simp_all
    have P: "1 / 4 \<le> P" "P \<le> 1"
      unfolding P_def using AA rne_quarter rne_1 by (rule rne_between)+
    have "\<bar>A * A\<bar> \<le> 2 ^ 0" using AA by simp
    then have "fl (A * A) = Num P" unfolding P_def by (rule fl_bounded(1)) simp
    then have AP: "Num A * Num A = Num P" by simp
    define S1 where "S1 = rne (sqrt P)"
    have "sqrt ((1 / 2)\<^sup>2) \<le> sqrt P" using P(1) by (intro real_sqrt_le_mono) (simp add: power2_eq_square)
    then have sP: "1 / 2 \<le> sqrt P" by simp
    have sP1: "sqrt P \<le> 1" using P(2) by simp
    have S1: "1 / 2 \<le> S1" "S1 \<le> 1"
      unfolding S1_def using sP sP1 rne_half rne_1 by (rule rne_between)+
    have "\<bar>sqrt P\<bar> \<le> 1" using sP sP1 by linarith
    then have "\<bar>sqrt P\<bar> \<le> 2 ^ 0" by (simp only: power_0)
    then have "fl (sqrt P) = Num S1" unfolding S1_def by (rule fl_bounded(1)) simp
    then have sqP: "sqrt64 (Num P) = Num S1" using P(1) by simp
    have "\<bar>S1\<bar> \<le> 2 ^ 0" using S1 by simp
    then have "fl S1 = Num (rne S1)" by (rule fl_bounded(1)) simp
    then have flS: "fl S1 = Num S1" by (simp add: S1_def)
    have S10: "S1 \<noteq> 0" using S1 by simp
    show ?thesis
      unfolding edgeOpacity64_def Let_def q(1) rA AP Q0 sqP
      using S10 by (simp add: minus_double_def flS)
  qed
qed

lemma direction_ratio:
  assumes "0 \<le> b" and "0 < rne (sqrt (rne (rne (x * x) + b)))"
  shows "\<bar>x\<bar> \<le> 2 * rne (sqrt (rne (rne (x * x) + b)))"
proof -
  define a where "a = rne (x * x)"
  define d where "d = rne (a + b)"
  define sd where "sd = rne (sqrt d)"
  have sd: "0 < sd" using assms(2) by (simp add: sd_def d_def a_def)
  have a0: "0 \<le> a" unfolding a_def by (intro rne_nonneg) simp
  have "rne a \<le> rne (a + b)" using assms(1) by (intro rne_mono) simp
  then have ad: "a \<le> d" by (simp add: d_def a_def)
  have dpos: "0 < d"
  proof (rule ccontr)
    assume "\<not> 0 < d"
    with a0 ad have "d = 0" by simp
    then show False using sd by (simp add: sd_def)
  qed
  have xd: "x * x \<le> 3 / 2 * d"
  proof (cases "a = 0")
    case True
    then have "\<bar>x * x\<bar> \<le> tiny" unfolding a_def by (rule rne_eq_0_imp)
    moreover have "2 * tiny \<le> d" using dpos unfolding d_def by (rule rne_pos_ge)
    ultimately show ?thesis using tiny_bounds(1) by simp
  next
    case False
    then have "\<bar>x * x\<bar> \<le> 3 / 2 * \<bar>a\<bar>" unfolding a_def by (intro rne_abs_bounds(2))
    then show ?thesis using a0 ad by simp
  qed
  have "sd \<noteq> 0" using sd by simp
  then have "\<bar>sqrt d\<bar> \<le> 3 / 2 * \<bar>sd\<bar>" unfolding sd_def by (intro rne_abs_bounds(2))
  then have s: "sqrt d \<le> 3 / 2 * sd" using sd dpos by simp
  have "d = sqrt d * sqrt d" using dpos by simp
  also have "\<dots> \<le> (3 / 2 * sd) * (3 / 2 * sd)" using s dpos sd by (intro mult_mono) auto
  finally have "d \<le> 9 / 4 * (sd * sd)" by simp
  with xd have "x * x \<le> 27 / 8 * (sd * sd)" by simp
  moreover have "0 \<le> sd * sd" by simp
  ultimately have "x * x \<le> 4 * (sd * sd)" by linarith
  then have "x\<^sup>2 \<le> (2 * sd)\<^sup>2" by (simp add: power2_eq_square)
  then have "\<bar>x\<bar> \<le> \<bar>2 * sd\<bar>" by (rule abs_le_square_iff[THEN iffD2])
  then have "\<bar>x\<bar> \<le> 2 * sd" using sd by simp
  then show ?thesis by (simp add: sd_def d_def a_def)
qed

lemma direction_bounded:
  assumes "0 \<le> b" and "0 \<le> d" and "d \<le> 2 ^ 87" and "d = rne (rne (x * x) + b)"
  shows "bounded64 1 (if Num 0 < sqrt64 (Num d) then Num x / sqrt64 (Num d) else Num 0)"
proof -
  have k: "(44::nat) \<le> 1023" by simp
  have "d \<le> 2 ^ (2 * 44)" using assms(3) by simp
  note s = sqrt_bounded[OF k assms(2) this]
  show ?thesis
  proof (cases "0 < rne (sqrt d)")
    case True
    then have "\<bar>x\<bar> \<le> 2 * rne (sqrt d)" unfolding assms(4) using assms(1) by (intro direction_ratio)
    then have "\<bar>x / rne (sqrt d)\<bar> \<le> 2 ^ 1" using True by (simp add: abs_divide field_simps)
    then have "bounded64 1 (fl (x / rne (sqrt d)))" by (rule fl_bounded(3)) simp
    then show ?thesis unfolding s(1) using True by simp
  next
    case False
    then show ?thesis unfolding s(1) by (simp add: bounded64_0)
  qed
qed

lemma array_get_or_zero64_cases:
  assumes "list_all (bounded64 k) xs"
  shows "\<exists>t. array_get_or_zero64 xs i = Num t \<and> (t = 0 \<or> Num t \<in> set xs)"
proof (cases "array_get64 xs i")
  case None
  then show ?thesis by (simp add: array_get_or_zero64_def)
next
  case (Some v)
  then have "v \<in> set xs" by (cases i) (auto split: if_splits)
  with assms have "bounded64 k v" by (simp add: list_all_iff)
  then obtain t where t: "v = Num t" by (auto simp: bounded64_def)
  show ?thesis
  proof (cases "t = 0")
    case True
    then show ?thesis using Some t by (simp add: array_get_or_zero64_def or_else64_def)
  next
    case False
    then show ?thesis using Some t \<open>v \<in> set xs\<close>
      by (simp add: array_get_or_zero64_def or_else64_def)
  qed
qed

lemma fold_max64_abs:
  assumes "list_all (bounded64 k) xs" and "0 \<le> a" and "a \<le> 2 ^ k"
  shows "\<exists>m. fold (\<lambda>x m. max64 m x) (map abs64 xs) (Num a) = Num m \<and> a \<le> m \<and> m \<le> 2 ^ k
             \<and> (\<forall>t. Num t \<in> set xs \<longrightarrow> \<bar>t\<bar> \<le> m)"
  using assms
proof (induction xs arbitrary: a)
  case Nil
  then show ?case by simp
next
  case (Cons x xs)
  from Cons.prems(1) obtain v where v: "x = Num v" "\<bar>v\<bar> \<le> 2 ^ k" by (auto simp: bounded64_def)
  have st: "max64 (Num a) (abs64 x) = Num (max a \<bar>v\<bar>)" by (simp add: v(1) max_def)
  have "list_all (bounded64 k) xs" using Cons.prems(1) by simp
  moreover have "0 \<le> max a \<bar>v\<bar>" by simp
  moreover have "max a \<bar>v\<bar> \<le> 2 ^ k" using Cons.prems(3) v(2) by simp
  ultimately obtain m where m: "fold (\<lambda>x m. max64 m x) (map abs64 xs) (Num (max a \<bar>v\<bar>)) = Num m"
    "max a \<bar>v\<bar> \<le> m" "m \<le> 2 ^ k" "\<forall>t. Num t \<in> set xs \<longrightarrow> \<bar>t\<bar> \<le> m"
    using Cons.IH[of "max a \<bar>v\<bar>"] by blast
  show ?case
  proof (intro exI[of _ m] conjI allI impI)
    show "fold (\<lambda>x m. max64 m x) (map abs64 (x # xs)) (Num a) = Num m" using m(1) st by simp
    show "a \<le> m" using m(2) by simp
    show "m \<le> 2 ^ k" by (rule m(3))
    show "\<bar>t\<bar> \<le> m" if "Num t \<in> set (x # xs)" for t
      using that m(2,4) v(1) by auto
  qed
qed

lemma normalizer64_cases:
  assumes "list_all (bounded64 k) xs"
  shows "normalizer64 xs = NegInf
       \<or> (\<exists>n. normalizer64 xs = Num n \<and> 0 < n \<and> n \<le> 2 ^ k \<and> (\<forall>t. Num t \<in> set xs \<longrightarrow> \<bar>t\<bar> \<le> n))"
proof (cases xs)
  case Nil
  then show ?thesis
    by (simp add: normalizer64_def maximumDisplacement_of64_def max_list64_def or_else64_def)
next
  case (Cons x ys)
  from assms Cons obtain v where v: "x = Num v" "\<bar>v\<bar> \<le> 2 ^ k" by (auto simp: bounded64_def)
  have st: "max64 NegInf (abs64 x) = Num \<bar>v\<bar>" by (simp add: v(1))
  have "list_all (bounded64 k) ys" using assms Cons by simp
  then obtain m where m: "fold (\<lambda>x m. max64 m x) (map abs64 ys) (Num \<bar>v\<bar>) = Num m"
    "\<bar>v\<bar> \<le> m" "m \<le> 2 ^ k" "\<forall>t. Num t \<in> set ys \<longrightarrow> \<bar>t\<bar> \<le> m"
    using fold_max64_abs[of k ys "\<bar>v\<bar>"] v(2) by auto
  have md: "maximumDisplacement_of64 xs = Num m"
    using m(1) st by (simp add: maximumDisplacement_of64_def max_list64_def Cons)
  have dom: "\<forall>t. Num t \<in> set xs \<longrightarrow> \<bar>t\<bar> \<le> m" using m(2,4) v(1) Cons by auto
  have m0: "0 \<le> m" using m(2) by linarith
  show ?thesis
  proof (cases "m = 0")
    case True
    have "normalizer64 xs = Num 1" by (simp add: normalizer64_def md or_else64_def True)
    moreover have "\<forall>t. Num t \<in> set xs \<longrightarrow> \<bar>t\<bar> \<le> 1" using dom True by auto
    moreover have "(1::real) \<le> 2 ^ k" by simp
    ultimately show ?thesis by auto
  next
    case False
    have "normalizer64 xs = Num m" by (simp add: normalizer64_def md or_else64_def False)
    moreover have "0 < m" using m0 False by simp
    ultimately show ?thesis using m(3) dom by auto
  qed
qed

lemma displacement_bounded:
  assumes "bounded64 1 c" and "\<bar>t\<bar> \<le> n" and "0 < n" and "n \<le> 2 ^ 1000"
  shows "bounded64 2 ((- c * Num t) / Num n)"
proof -
  from assms(1) obtain cv where c: "c = Num cv" "\<bar>cv\<bar> \<le> 2 ^ 1" by (auto simp: bounded64_def)
  have "\<bar>- cv * t\<bar> = \<bar>cv\<bar> * \<bar>t\<bar>" by (simp add: abs_mult)
  also have "\<dots> \<le> 2 ^ 1 * n" using c(2) assms(2) by (intro mult_mono) auto
  finally have ct: "\<bar>- cv * t\<bar> \<le> 2 * n" by simp
  also have "\<dots> \<le> 2 * 2 ^ 1000" using assms(4) by simp
  finally have "\<bar>- cv * t\<bar> \<le> 2 ^ 1001" by simp
  then have f: "fl (- cv * t) = Num (rne (- cv * t))" by (rule fl_bounded(1)) simp
  have "\<bar>rne (- cv * t)\<bar> \<le> 2 * \<bar>- cv * t\<bar>" by (rule rne_abs_bounds(1))
  with ct have "\<bar>rne (- cv * t)\<bar> \<le> 4 * n" by linarith
  then have "\<bar>rne (- cv * t) / n\<bar> \<le> 2 ^ 2" using assms(3) by (simp add: abs_divide field_simps)
  then have "bounded64 2 (fl (rne (- cv * t) / n))" by (rule fl_bounded(3)) simp
  moreover have "(- c * Num t) / Num n = fl (rne (- cv * t) / n)"
    using assms(3) f by (simp add: c(1))
  ultimately show ?thesis by simp
qed

lemma channel_bounded:
  assumes "bounded64 2 dX" and "bounded64 47 opacity"
  shows "\<exists>v. max64 (Num 0) (min64 (Num 255) (Num 128 + dX * Num 127 * opacity)) = Num v
             \<and> 0 \<le> v \<and> v \<le> 255"
proof -
  have "bounded64 7 (Num 127)" by (rule bounded64_numeral) simp
  with assms(1) have "bounded64 (2 + 7) (dX * Num 127)" by (rule bounded64_mult) simp
  then have "bounded64 (2 + 7 + 47) (dX * Num 127 * opacity)"
    using assms(2) by (rule bounded64_mult) simp
  then have "bounded64 56 (dX * Num 127 * opacity)" by simp
  moreover have "bounded64 56 (Num 128)" by (intro bounded64_numeral) auto
  ultimately have "bounded64 (Suc 56) (Num 128 + dX * Num 127 * opacity)"
    by (intro bounded64_add) auto
  then obtain z where z: "Num 128 + dX * Num 127 * opacity = Num z" by (auto simp: bounded64_def)
  show ?thesis unfolding z by auto
qed

lemma channel_neutral:
  assumes "bounded64 47 opacity"
  shows "max64 (Num 0) (min64 (Num 255) (Num 128 + Num 0 * Num 127 * opacity)) = Num 128"
proof -
  from assms obtain ov where "opacity = Num ov" by (auto simp: bounded64_def)
  then show ?thesis by simp
qed

lemma bezelChannels64_finite:
  assumes tab: "list_all (bounded64 1000) precomputedMap"
    and r: "\<bar>radius\<bar> \<le> 2 ^ 40" and W: "objectWidth \<le> 2 ^ 40" and H: "objectHeight \<le> 2 ^ 40"
    and x1: "x1 < objectWidth" and y1: "y1 < objectHeight"
  shows "\<not> Num 0 < m \<longrightarrow>
           bezelChannels64 objectWidth objectHeight (Num radius) bezelWidth m precomputedMap x1 y1
             = (Num 128, Num 128)"
    and "\<exists>r g. bezelChannels64 objectWidth objectHeight (Num radius) bezelWidth
                 (normalizer64 precomputedMap) precomputedMap x1 y1 = (Num r, Num g)
               \<and> 0 \<le> r \<and> r \<le> 255 \<and> 0 \<le> g \<and> g \<le> 255"
proof -
  obtain x y where xy: "cornerOffset64 (count objectWidth) (Num radius) (count x1) = Num x"
      "cornerOffset64 (count objectHeight) (Num radius) (count y1) = Num y"
      "\<bar>x\<bar> \<le> 2 ^ 43" "\<bar>y\<bar> \<le> 2 ^ 43"
      "distanceToCenterSquared64 objectWidth objectHeight (Num radius) x1 y1
         = Num (rne (rne (x * x) + rne (y * y)))"
      "radius < 0 \<longrightarrow> x = 0 \<and> y = 0"
    using distanceToCenterSquared64_form[OF r W H x1 y1] by blast
  define d where "d = rne (rne (x * x) + rne (y * y))"
  note db = dsq_bounds[OF xy(3,4), folded d_def]
  have d2: "d = rne (rne (y * y) + rne (x * x))" by (simp add: d_def add.commute)
  have op: "bounded64 47 (edgeOpacity64 (Num radius) (Num d))"
  proof (cases "radius < 0")
    case True
    with xy(6) have "d = 0" by (simp add: d_def)
    then show ?thesis using edgeOpacity64_negative_radius[OF True r] by (simp add: bounded64_1)
  next
    case False
    then show ?thesis using r db by (intro edgeOpacity64_bounded) auto
  qed
  have kx: "(0::real) \<le> rne (y * y)" and ky: "(0::real) \<le> rne (x * x)"
    by (intro rne_nonneg, simp)+
  have cs: "bounded64 1 (if Num 0 < sqrt64 (Num d) then Num x / sqrt64 (Num d) else Num 0)"
    using kx db by (rule direction_bounded) (simp add: d_def)
  have sn: "bounded64 1 (if Num 0 < sqrt64 (Num d) then Num y / sqrt64 (Num d) else Num 0)"
    using ky db d2 by (rule direction_bounded)
  obtain t where t: "array_get_or_zero64 precomputedMap
      (tableIndex64 (Num radius) bezelWidth precomputedMap (Num d)) = Num t"
      "t = 0 \<or> Num t \<in> set precomputedMap"
    using array_get_or_zero64_cases[OF tab] by blast
  show "\<not> Num 0 < m \<longrightarrow>
           bezelChannels64 objectWidth objectHeight (Num radius) bezelWidth m precomputedMap x1 y1
             = (Num 128, Num 128)"
    unfolding bezelChannels64_def Let_def xy(1,2,5) d_def[symmetric]
    using channel_neutral[OF op] by simp
  show "\<exists>r g. bezelChannels64 objectWidth objectHeight (Num radius) bezelWidth
                 (normalizer64 precomputedMap) precomputedMap x1 y1 = (Num r, Num g)
               \<and> 0 \<le> r \<and> r \<le> 255 \<and> 0 \<le> g \<and> g \<le> 255"
  proof -
    from normalizer64_cases[OF tab]
    consider "normalizer64 precomputedMap = NegInf"
      | n where "normalizer64 precomputedMap = Num n" "0 < n" "n \<le> 2 ^ 1000"
          "\<forall>t. Num t \<in> set precomputedMap \<longrightarrow> \<bar>t\<bar> \<le> n"
      by blast
    then show ?thesis
    proof cases
      case 1
      show ?thesis
        unfolding bezelChannels64_def Let_def xy(1,2,5) d_def[symmetric] 1
        using channel_neutral[OF op] by simp
    next
      case 2
      have tn: "\<bar>t\<bar> \<le> n" using t(2) 2(2,4) by auto
      note dx = displacement_bounded[OF cs tn 2(2,3)]
      note dy = displacement_bounded[OF sn tn 2(2,3)]
      have lt: "Num 0 < Num n" using 2(2) by simp
      obtain rv where rv: "max64 (Num 0) (min64 (Num 255) (Num 128
          + (- (if Num 0 < sqrt64 (Num d) then Num x / sqrt64 (Num d) else Num 0) * Num t) / Num n
            * Num 127 * edgeOpacity64 (Num radius) (Num d))) = Num rv" "0 \<le> rv" "rv \<le> 255"
        using channel_bounded[OF dx op] by blast
      obtain gv where gv: "max64 (Num 0) (min64 (Num 255) (Num 128
          + (- (if Num 0 < sqrt64 (Num d) then Num y / sqrt64 (Num d) else Num 0) * Num t) / Num n
            * Num 127 * edgeOpacity64 (Num radius) (Num d))) = Num gv" "0 \<le> gv" "gv \<le> 255"
        using channel_bounded[OF dy op] by blast
      show ?thesis
        unfolding bezelChannels64_def Let_def xy(1,2,5) d_def[symmetric] 2(1) t(1) if_P[OF lt]
          rv(1) gv(1)
        using rv(2,3) gv(2,3) by simp
    qed
  qed
qed

lemma huge_radius:
  assumes "R = 2 ^ 512"
  shows "fl R = Num R" and "fl (R + 1) = Num R" and "fl (R - 16) = Num R" and "fl (R * R) = PosInf"
    and "0 < R"
proof -
  show pos: "0 < R" by (simp add: assms)
  have e: "rne R = R" using rne_pow2[of 512] by (simp add: assms)
  have le: "\<bar>R\<bar> \<le> 2 ^ 1023" by (simp add: assms)
  show "fl R = Num R" using fl_Num[OF le] e by simp
  have "rne (R + 1) = R"
  proof (rule rne_near[where b = 512 and k = "2 ^ 52"])
    show "binade (R + 1) = 512" by (rule binade_eq) (simp_all add: assms)
    show "R = of_int (2 ^ 52) * 2 powr (of_int 512 - 52)" by (simp add: assms)
    show "\<bar>R + 1 - R\<bar> < 2 powr (of_int 512 - 52) / 2" by simp
  qed
  moreover have "\<bar>R + 1\<bar> \<le> 2 ^ 1023" by (simp add: assms)
  ultimately show "fl (R + 1) = Num R" by (simp add: fl_Num)
  have "rne (R - 16) = R"
  proof (rule rne_near[where b = 511 and k = "2 ^ 53"])
    show "binade (R - 16) = 511" by (rule binade_eq) (simp_all add: assms)
    show "R = of_int (2 ^ 53) * 2 powr (of_int 511 - 52)" by (simp add: assms)
    show "\<bar>R - 16 - R\<bar> < 2 powr (of_int 511 - 52) / 2" by simp
  qed
  moreover have "\<bar>R - 16\<bar> \<le> 2 ^ 1023" by (simp add: assms)
  ultimately show "fl (R - 16) = Num R" by (simp add: fl_Num)
  have "R * R = 2 ^ 1024" by (simp add: assms)
  moreover have "rne (2 ^ 1024) = 2 ^ 1024" using rne_pow2[of 1024] by simp
  ultimately show "fl (R * R) = PosInf" by (simp add: fl_def max_double_def)
qed

lemma huge_radius_channels:
  assumes "R = 2 ^ 512"
  shows "isInBezel64 (Num R) (Num 16) (distanceToCenterSquared64 4 4 (Num R) 0 0)"
    and "bezelChannels64 4 4 (Num R) (Num 16) (normalizer64 [Num 1]) [Num 1] 0 0
           = (NotANumber, NotANumber)"
proof -
  note h = huge_radius[OF assms]
  have d: "distanceToCenterSquared64 4 4 (Num R) 0 0 = PosInf"
    using h by (simp add: distanceToCenterSquared64_def cornerOffset64_def Let_def minus_double_def fl_uminus)
  show "isInBezel64 (Num R) (Num 16) (distanceToCenterSquared64 4 4 (Num R) 0 0)"
    unfolding d using h by (simp add: isInBezel64_def Let_def minus_double_def)
  have n: "normalizer64 [Num 1] = Num 1"
    by (simp add: normalizer64_def maximumDisplacement_of64_def max_list64_def or_else64_def)
  have o: "edgeOpacity64 (Num R) PosInf = NotANumber"
    using h by (simp add: edgeOpacity64_def Let_def minus_double_def)
  show "bezelChannels64 4 4 (Num R) (Num 16) (normalizer64 [Num 1]) [Num 1] 0 0
           = (NotANumber, NotANumber)"
    using h by (simp add: bezelChannels64_def d n o cornerOffset64_def Let_def minus_double_def
        fl_uminus tableIndex64_def bezelRatio64_def array_get_or_zero64_def or_else64_def)
qed

text \<open>
  Claim C8 as stated fails.  With radius \<open>2 ^ 512\<close>, an object of 4 by 4 pixels,
  bezel width 16, the table \<open>[1]\<close> and the divisor \<open>1\<close> the caller passes for it,
  \<open>radius * radius\<close> and the squared distance of pixel \<open>(0, 0)\<close> overflow to
  \<open>Infinity\<close>; the pixel is in the band, its opacity is
  \<open>1 - (Infinity - Infinity) / (Infinity - Infinity)\<close>, and \<open>NaN\<close> is assigned to
  its red and green channel.
\<close>

theorem displacement_channel_overflow:
  "list_all is_Num [Num 1]
   \<and> isInBezel64 (Num (2 ^ 512)) (Num 16) (distanceToCenterSquared64 4 4 (Num (2 ^ 512)) 0 0)
   \<and> normalizer64 [Num 1] = Num 1
   \<and> bezelChannels64 4 4 (Num (2 ^ 512)) (Num 16) (normalizer64 [Num 1]) [Num 1] 0 0
        = (NotANumber, NotANumber)"
  using huge_radius_channels[of "2 ^ 512"]
  by (simp add: normalizer64_def maximumDisplacement_of64_def max_list64_def or_else64_def)

text \<open>
  Claim C8, amended.  A maximum that is zero (or \<open>NaN\<close>) is replaced by 1 by the
  caller's \<open>|| 1\<close>, and a divisor that is not positive makes \<open>dX\<close> and \<open>dY\<close> zero.
  For a radius of magnitude at most \<open>2 ^ 40\<close>, an object of at most \<open>2 ^ 40\<close> pixels
  each way, every bezel width whatsoever and a table whose entries are numbers of
  magnitude at most \<open>2 ^ 1000\<close>: with a divisor that is not positive both channels of
  every pixel of the loop are 128, and with the divisor \<open>maximumDisplacement || 1\<close>
  that the caller passes the two numbers assigned to the red and green channel are
  finite and lie in \<open>0..255\<close>.  The other two stores of the loop body and the four
  of the fill loop are the constants 0, 128 and 255.
\<close>

theorem displacement_channels_finite:
  assumes "list_all (bounded64 1000) precomputedMap"
    and "\<bar>radius\<bar> \<le> 2 ^ 40" and "objectWidth \<le> 2 ^ 40" and "objectHeight \<le> 2 ^ 40"
    and "x1 < objectWidth" and "y1 < objectHeight"
  shows "(\<not> truthy64 (maximumDisplacement_of64 precomputedMap) \<longrightarrow> normalizer64 precomputedMap = Num 1)
       \<and> (\<forall>m. \<not> Num 0 < m \<longrightarrow>
            bezelChannels64 objectWidth objectHeight (Num radius) bezelWidth m precomputedMap x1 y1
              = (Num 128, Num 128))
       \<and> (\<exists>r g. bezelChannels64 objectWidth objectHeight (Num radius) bezelWidth
                   (normalizer64 precomputedMap) precomputedMap x1 y1 = (Num r, Num g)
                 \<and> 0 \<le> r \<and> r \<le> 255 \<and> 0 \<le> g \<and> g \<le> 255)"
  using bezelChannels64_finite[OF assms]
  by (simp add: normalizer64_def or_else64_def)

text \<open>
  An instance: radius 3, bezel width 2, an object of 8 by 8 pixels, the table
  \<open>[0, 3, - 5]\<close> with divisor 5, and the band pixel \<open>(0, 2)\<close>.
\<close>

theorem displacement_channels_finite_witness:
  "list_all (bounded64 1000) [Num 0, Num 3, Num (- 5)] \<and> \<bar>3 :: real\<bar> \<le> 2 ^ 40
   \<and> (8::nat) \<le> 2 ^ 40 \<and> (0::nat) < 8 \<and> (2::nat) < 8
   \<and> normalizer64 [Num 0, Num 3, Num (- 5)] = Num 5
   \<and> isInBezel64 (Num 3) (Num 2) (distanceToCenterSquared64 8 8 (Num 3) 0 2)
   \<and> (\<exists>r g. bezelChannels64 8 8 (Num 3) (Num 2) (normalizer64 [Num 0, Num 3, Num (- 5)])
                [Num 0, Num 3, Num (- 5)] 0 2 = (Num r, Num g)
              \<and> 0 \<le> r \<and> r \<le> 255 \<and> 0 \<le> g \<and> g \<le> 255)"
proof -
  have h1: "list_all (bounded64 1000) [Num 0, Num 3, Num (- 5)]"
    by (simp add: bounded64_def)
  have h2: "\<bar>3 :: real\<bar> \<le> 2 ^ 40" and h3: "(8::nat) \<le> 2 ^ 40"
    and h4: "(0::nat) < 8" and h5: "(2::nat) < 8"
    by simp_all
  have n: "normalizer64 [Num 0, Num 3, Num (- 5)] = Num 5"
    by (simp add: normalizer64_def maximumDisplacement_of64_def max_list64_def or_else64_def)
  have b: "isInBezel64 (Num 3) (Num 2) (distanceToCenterSquared64 8 8 (Num 3) 0 2)"
    by (simp add: isInBezel64_def distanceToCenterSquared64_def cornerOffset64_def Let_def
        minus_double_def)
  show ?thesis
    using h1 h2 h3 h4 h5 n b displacement_channels_finite[OF h1 h2 h3 h3 h4 h5, of "Num 2"]
    by blast
qed

section \<open>The refraction table on doubles\<close>

text \<open>
  The sampler on doubles: a profile value stays within \<open>2 ^ 8\<close> in magnitude (within
  0 and 1 for the two convex profiles), the forward difference within \<open>2 ^ 23\<close>, and
  the normal has \<open>normalY\<close> between \<open>- 1\<close> and \<open>- 2 ^ - 24\<close>.
\<close>

lemma rne_inverse_pow2: "k \<le> 1074 \<Longrightarrow> rne (1 / 2 ^ k) = 1 / 2 ^ k"
proof -
  assume "k \<le> 1074"
  then have "- 1074 \<le> - int k" by simp
  then have "rne (2 powr of_int (- int k)) = 2 powr of_int (- int k)" by (rule rne_pow2)
  moreover have "(2::real) powr of_int (- int k) = 1 / 2 ^ k"
    by (simp add: powr_minus powr_realpow divide_simps)
  ultimately show ?thesis by simp
qed

lemma rne_abs_le:
  assumes "\<bar>x\<bar> \<le> B" and "rne B = B"
  shows "\<bar>rne x\<bar> \<le> B"
proof -
  from assms(1) have "x \<le> B" "- x \<le> B" by linarith+
  then have "rne x \<le> B" "rne (- x) \<le> B" using assms(2) by (auto intro: rne_le)
  then show ?thesis by (simp add: rne_uminus)
qed

lemma bounded64_times:
  assumes "bounded64 j a" and "bounded64 k b" and "j + k \<le> n" and "n \<le> 1023"
  shows "bounded64 n (a * b)"
proof -
  have "bounded64 (j + k) (a * b)" using assms by (intro bounded64_mult) auto
  then show ?thesis using assms(3) by (rule bounded64_mono)
qed

lemma bounded64_plus:
  assumes "bounded64 j a" and "bounded64 k b" and "j < n" and "k < n" and "n \<le> 1023"
  shows "bounded64 n (a + b)"
proof -
  obtain m where m: "n = Suc m" using assms(3) by (cases n) auto
  have "bounded64 m a" "bounded64 m b" using assms(1-4) m by (auto intro: bounded64_mono)
  then have "bounded64 (Suc m) (a + b)" using assms(5) m by (intro bounded64_add) auto
  then show ?thesis by (simp add: m)
qed

lemma bounded64_minus:
  assumes "bounded64 j a" and "bounded64 k b" and "j < n" and "k < n" and "n \<le> 1023"
  shows "bounded64 n (a - b)"
  unfolding minus_double_def using assms by (intro bounded64_plus[of j _ k] bounded64_uminus)

lemma fl_small: "\<bar>x\<bar> \<le> 4 \<Longrightarrow> fl x = Num (rne x)"
proof -
  assume "\<bar>x\<bar> \<le> 4"
  moreover have "(4::real) \<le> 2 ^ 1023" by simp
  ultimately have "\<bar>x\<bar> \<le> 2 ^ 1023" by (rule order_trans)
  then show ?thesis by (rule fl_Num)
qed

lemma fl_unit:
  assumes "0 \<le> x" and "x \<le> 1"
  shows "unit64 (fl x)"
proof -
  have "\<bar>x\<bar> \<le> 2 ^ 1023" using assms by simp
  then have "fl x = Num (rne x)" by (rule fl_Num)
  moreover have "0 \<le> rne x" using assms(1) by (rule rne_nonneg)
  moreover have "rne x \<le> 1" using assms(2) by (rule rne_le) simp
  ultimately show ?thesis by (simp add: unit64_def)
qed

lemma unit64_bounded: "unit64 z \<Longrightarrow> bounded64 0 z"
  by (auto simp: unit64_def bounded64_def)

lemma unit64_0 [simp]: "unit64 (Num 0)" and unit64_1 [simp]: "unit64 (Num 1)"
  by (simp_all add: unit64_def)

lemma unit64_complement: "unit64 z \<Longrightarrow> unit64 (Num 1 - z)"
proof -
  assume "unit64 z"
  then obtain v where v: "z = Num v" "0 \<le> v" "v \<le> 1" by (auto simp: unit64_def)
  have "unit64 (fl (1 - v))" using v by (intro fl_unit) auto
  then show ?thesis by (simp add: v(1) minus_double_def)
qed

lemma unit64_sqrt: "unit64 z \<Longrightarrow> unit64 (sqrt64 z)"
proof -
  assume "unit64 z"
  then obtain v where v: "z = Num v" "0 \<le> v" "v \<le> 1" by (auto simp: unit64_def)
  have "unit64 (fl (sqrt v))" using v by (intro fl_unit) auto
  then show ?thesis using v by simp
qed

lemma real_pow_unit:
  assumes "0 < b" and "b \<le> 1" and "0 < e"
  shows "0 \<le> real_pow b e" and "real_pow b e \<le> 1"
proof -
  show "0 \<le> real_pow b e" using assms(1) by (simp add: real_pow_def)
  show "real_pow b e \<le> 1"
  proof (cases "e = of_int \<lfloor>e\<rfloor>")
    case True
    have "0 \<le> \<lfloor>e\<rfloor>" using assms(3) by simp
    then have "b powi \<lfloor>e\<rfloor> = b ^ nat \<lfloor>e\<rfloor>" by (simp add: power_int_def)
    also have "\<dots> \<le> 1" using assms(1,2) by (intro power_le_one) auto
    finally show ?thesis using True by (simp add: real_pow_def)
  next
    case False
    have "b powr e \<le> 1" using assms by (intro powr_le1) auto
    then show ?thesis using False by (simp add: real_pow_def)
  qed
qed

lemma unit64_pow: "unit64 z \<Longrightarrow> 0 < e \<Longrightarrow> unit64 (pow64 z (Num e))"
proof -
  assume "unit64 z" and e: "0 < e"
  then obtain v where v: "z = Num v" "0 \<le> v" "v \<le> 1" by (auto simp: unit64_def)
  show ?thesis
  proof (cases "v = 0")
    case True
    then show ?thesis using e by (simp add: v(1))
  next
    case False
    then have "0 < v" using v(2) by simp
    then have "unit64 (fl (real_pow v e))" using v(3) e by (intro fl_unit real_pow_unit)
    then show ?thesis using e \<open>0 < v\<close> by (simp add: v(1))
  qed
qed

lemma quarter64: "Num 1 / Num 4 = Num (1 / 4)"
proof -
  have "rne (1 / 4) = 1 / 4" by (rule rne_quarter)
  moreover have "\<bar>1 / 4 :: real\<bar> \<le> 2 ^ 1023" by simp
  ultimately show ?thesis by (simp add: fl_Num)
qed

lemma unit64_double_min: "unit64 z \<Longrightarrow> unit64 (min64 (z * Num 2) (Num 1))"
proof -
  assume "unit64 z"
  then obtain v where v: "z = Num v" "0 \<le> v" "v \<le> 1" by (auto simp: unit64_def)
  have "\<bar>v * 2\<bar> \<le> 2 ^ 1023" using v by simp
  then have f: "fl (v * 2) = Num (rne (v * 2))" by (rule fl_Num)
  have "0 \<le> rne (v * 2)" using v(2) by (intro rne_nonneg) simp
  then show ?thesis by (simp add: v(1) f unit64_def)
qed

lemma unit64_convex:
  assumes "unit64 x" and "p = convex_circle \<or> p = convex_squircle"
  shows "unit64 (SurfaceEquations64 p x)"
  using assms(2)
proof
  assume "p = convex_circle"
  then show ?thesis
    using assms(1) by (simp add: unit64_sqrt unit64_complement unit64_pow)
next
  assume "p = convex_squircle"
  have "unit64 (pow64 (Num 1 - pow64 (Num 1 - x) (Num 4)) (Num (1 / 4)))"
    using assms(1) by (intro unit64_pow unit64_complement) auto
  then show ?thesis
    unfolding \<open>p = convex_squircle\<close> SurfaceEquations64.simps quarter64 .
qed

lemma literal_tenth_unit: "unit64 (literal 0.1)"
  unfolding literal_def by (rule fl_unit) simp_all

lemma SurfaceEquations64_bounded:
  assumes "unit64 x"
  shows "bounded64 8 (SurfaceEquations64 p x)"
proof (cases p)
  case convex_circle
  then show ?thesis using unit64_convex[OF assms, of p] by (auto intro: bounded64_mono unit64_bounded)
next
  case convex_squircle
  then show ?thesis using unit64_convex[OF assms, of p] by (auto intro: bounded64_mono unit64_bounded)
next
  case concave
  have "unit64 (Num 1 - sqrt64 (Num 1 - pow64 x (Num 2)))"
    using assms by (intro unit64_complement unit64_sqrt unit64_pow) auto
  then show ?thesis using concave by (auto intro: bounded64_mono unit64_bounded)
next
  case lip
  define convex where "convex = pow64 (Num 1 - pow64 (Num 1 - min64 (x * Num 2) (Num 1)) (Num 4)) (Num 1 / Num 4)"
  define conc where "conc = Num 1 - sqrt64 (Num 1 - pow64 (Num 1 - x) (Num 2)) + literal 0.1"
  define ss where "ss = Num 6 * pow64 x (Num 5) - Num 15 * pow64 x (Num 4) + Num 10 * pow64 x (Num 3)"
  have "unit64 (pow64 (Num 1 - pow64 (Num 1 - min64 (x * Num 2) (Num 1)) (Num 4)) (Num (1 / 4)))"
    using assms by (intro unit64_pow unit64_complement unit64_double_min) auto
  then have cv: "bounded64 0 convex" unfolding convex_def quarter64 by (rule unit64_bounded)
  have "unit64 (Num 1 - sqrt64 (Num 1 - pow64 (Num 1 - x) (Num 2)))"
    using assms by (intro unit64_complement unit64_sqrt unit64_pow) auto
  then have "bounded64 0 (Num 1 - sqrt64 (Num 1 - pow64 (Num 1 - x) (Num 2)))"
    by (rule unit64_bounded)
  moreover have "bounded64 0 (literal 0.1)" using literal_tenth_unit by (rule unit64_bounded)
  ultimately have cc: "bounded64 1 conc" unfolding conc_def by (rule bounded64_plus) simp_all
  have p5: "bounded64 0 (pow64 x (Num 5))" and p4: "bounded64 0 (pow64 x (Num 4))"
    and p3: "bounded64 0 (pow64 x (Num 3))"
    using assms by (auto intro!: unit64_bounded unit64_pow)
  have n6: "bounded64 3 (Num 6)" and n15: "bounded64 4 (Num 15)" and n10: "bounded64 4 (Num 10)"
    by (auto intro!: bounded64_numeral)
  have a: "bounded64 3 (Num 6 * pow64 x (Num 5))" using n6 p5 by (rule bounded64_times) simp_all
  have b: "bounded64 4 (Num 15 * pow64 x (Num 4))" using n15 p4 by (rule bounded64_times) simp_all
  have c: "bounded64 4 (Num 10 * pow64 x (Num 3))" using n10 p3 by (rule bounded64_times) simp_all
  have "bounded64 5 (Num 6 * pow64 x (Num 5) - Num 15 * pow64 x (Num 4))"
    using a b by (rule bounded64_minus) simp_all
  then have s: "bounded64 6 ss" unfolding ss_def using c by (rule bounded64_plus) simp_all
  have "bounded64 7 (Num 1 - ss)" using bounded64_1[of 0] s by (rule bounded64_minus) simp_all
  with cv have t1: "bounded64 7 (convex * (Num 1 - ss))" by (rule bounded64_times) simp_all
  have t2: "bounded64 7 (conc * ss)" using cc s by (rule bounded64_times) simp_all
  have "bounded64 8 (convex * (Num 1 - ss) + conc * ss)" using t1 t2 by (rule bounded64_plus) simp_all
  then show ?thesis using lip by (simp add: Let_def convex_def conc_def ss_def)
qed

lemma sample_position64:
  assumes "i < n" and "n \<le> 2 ^ 53"
  shows "unit64 (count i / count n)"
proof -
  have ci: "count i = Num (real i)" using assms by (intro count_Num) auto
  have cn: "count n = Num (real n)" using assms by (intro count_Num) auto
  have "unit64 (fl (real i / real n))" using assms(1) by (intro fl_unit) auto
  then show ?thesis using assms(1) by (simp add: ci cn)
qed

lemma step64:
  shows "literal 0.0001 = Num (rne (1 / 10000))"
    and "1 / 2 ^ 14 \<le> rne (1 / 10000)" and "rne (1 / 10000) \<le> 1 / 2 ^ 13"
proof -
  have "\<bar>1 / 10000 :: real\<bar> \<le> 2 ^ 1023" by simp
  then show "literal 0.0001 = Num (rne (1 / 10000))" by (simp add: literal_def fl_Num)
  have e14: "rne (1 / 2 ^ 14) = 1 / 2 ^ 14" and e13: "rne (1 / 2 ^ 13) = 1 / 2 ^ 13"
    by (rule rne_inverse_pow2, simp)+
  have "(1 / 2 ^ 14 :: real) \<le> 1 / 10000" by simp
  then show "1 / 2 ^ 14 \<le> rne (1 / 10000)" using e14 by (rule rne_ge)
  have "(1 / 10000 :: real) \<le> 1 / 2 ^ 13" by simp
  then show "rne (1 / 10000) \<le> 1 / 2 ^ 13" using e13 by (rule rne_le)
qed

lemma clamp_unit64:
  assumes "bounded64 k z"
  shows "unit64 (max64 (Num 0) (min64 (Num 1) z))"
proof -
  from assms obtain v where "z = Num v" by (auto simp: bounded64_def)
  then show ?thesis by (simp add: unit64_def)
qed

lemma sampleNormal64_bounds:
  assumes "i < n" and "n \<le> 2 ^ 53"
  shows "\<exists>nx ny. sampleNormal64 (SurfaceEquations64 p) n i = (Num nx, Num ny)
           \<and> \<bar>nx\<bar> \<le> 2 \<and> - 1 \<le> ny \<and> ny \<le> - (1 / 2 ^ 24) \<and> rne nx = nx \<and> rne ny = ny"
proof -
  define x where "x = count i / count n"
  define h where "h = rne (1 / 10000)"
  define dx where "dx = (if x < Num 1 then literal 0.0001 else - literal 0.0001)"
  define y where "y = SurfaceEquations64 p x"
  define y2 where "y2 = SurfaceEquations64 p (max64 (Num 0) (min64 (Num 1) (x + dx)))"
  have ux: "unit64 x" unfolding x_def using assms by (rule sample_position64)
  note st = step64[folded h_def]
  obtain hh where hh: "dx = Num hh" "1 / 2 ^ 14 \<le> \<bar>hh\<bar>" "\<bar>hh\<bar> \<le> 1 / 2 ^ 13"
    using st by (cases "x < Num 1") (auto simp: dx_def)
  have "bounded64 0 dx" unfolding hh(1) using hh(3) by (intro bounded64I) simp
  with unit64_bounded[OF ux] have "bounded64 1 (x + dx)" by (rule bounded64_plus) simp_all
  then have "unit64 (max64 (Num 0) (min64 (Num 1) (x + dx)))" by (rule clamp_unit64)
  then have by2: "bounded64 8 y2" unfolding y2_def by (rule SurfaceEquations64_bounded)
  have by1: "bounded64 8 y" unfolding y_def using ux by (rule SurfaceEquations64_bounded)
  have "bounded64 9 (y2 - y)" using by2 by1 by (rule bounded64_minus) simp_all
  then obtain dy where dy: "y2 - y = Num dy" "\<bar>dy\<bar> \<le> 2 ^ 9" by (auto simp: bounded64_def)
  have hh0: "hh \<noteq> 0" using hh(2) by auto
  define D where "D = rne (dy / hh)"
  have "\<bar>dy / hh\<bar> = \<bar>dy\<bar> / \<bar>hh\<bar>" by (simp add: abs_divide)
  also have "\<dots> \<le> 2 ^ 9 / (1 / 2 ^ 14)" using dy(2) hh(2) by (intro frac_le) auto
  finally have q: "\<bar>dy / hh\<bar> \<le> 2 ^ 23" by simp
  have k23: "(23::nat) \<le> 1023" by simp
  note fd = fl_bounded(1,2)[OF q k23, folded D_def]
  have der: "(y2 - y) / dx = Num D" unfolding dy(1) hh(1) using hh0 fd(1) by simp
  have k46: "2 * (23::nat) \<le> 1023" by simp
  note sq = square_bounded[OF k46 fd(2)]
  define w where "w = rne (rne (D * D) + 1)"
  have "\<bar>rne (D * D) + 1\<bar> \<le> 2 ^ 47" using sq(2,3) by simp
  note fw = fl_bounded(1,2)[OF this, folded w_def]
  have w1: "1 \<le> w" unfolding w_def using sq(2) by (intro rne_ge) auto
  have dd1: "Num D * Num D + Num 1 = Num w" unfolding sq(1) using fw(1) by simp
  define m where "m = rne (sqrt w)"
  have k24: "(24::nat) \<le> 1023" by simp
  have "0 \<le> w" "w \<le> 2 ^ (2 * 24)" using w1 fw(2) by auto
  note sm = sqrt_bounded[OF k24 this, folded m_def]
  have "1 \<le> sqrt w" using w1 by simp
  then have m1: "1 \<le> m" unfolding m_def by (intro rne_ge) auto
  have "\<bar>D\<bar> \<le> 2 * rne (sqrt (rne (rne (D * D) + 1)))"
    using m1 by (intro direction_ratio) (auto simp: m_def w_def)
  then have Dm: "\<bar>D\<bar> \<le> 2 * m" by (simp add: m_def w_def)
  define nx where "nx = rne (- D / m)"
  define ny where "ny = rne (- 1 / m)"
  have "\<bar>- D / m\<bar> \<le> 2 ^ 1" using Dm m1 by (simp add: abs_divide field_simps)
  note fx = fl_bounded(1,2)[OF this, folded nx_def]
  have "- 1 \<le> - 1 / m" using m1 by (simp add: field_simps)
  moreover have "- 1 / m \<le> - (1 / 2 ^ 24)"
  proof -
    have "1 / 2 ^ 24 \<le> 1 / m" using sm(3) m1 by (intro divide_left_mono) auto
    then show ?thesis by simp
  qed
  moreover have "rne (- 1) = - 1" using rne_uminus[of 1] by simp
  moreover have "rne (- (1 / 2 ^ 24)) = - (1 / 2 ^ 24)"
    unfolding rne_uminus by (subst rne_inverse_pow2) simp_all
  ultimately have nyb: "- 1 \<le> ny" "ny \<le> - (1 / 2 ^ 24)" unfolding ny_def by (rule rne_between)+
  have "\<bar>- 1 / m\<bar> \<le> 2 ^ 0" using m1 by (simp add: abs_divide field_simps)
  note fy = fl_bounded(1)[OF this, folded ny_def]
  have m0: "m \<noteq> 0" using m1 by simp
  have "sampleNormal64 (SurfaceEquations64 p) n i = (- Num D / Num m, - Num 1 / Num m)"
    unfolding sampleNormal64_def Let_def
    unfolding x_def[symmetric] dx_def[symmetric] y_def[symmetric] y2_def[symmetric] der dd1 sm(1) ..
  also have "\<dots> = (Num nx, Num ny)" using m0 fx(1) fy by simp
  finally show ?thesis using fx(2) nyb by (auto simp: nx_def ny_def)
qed

lemma rne_error_unit:
  assumes "\<bar>x\<bar> \<le> 1"
  shows "\<bar>rne x - x\<bar> \<le> macheps + tiny"
proof -
  have "\<bar>x\<bar> * macheps \<le> 1 * macheps" using assms macheps_bounds(1) by (intro mult_right_mono) auto
  with rne_error[of x] show ?thesis by simp
qed

lemma rne_pow2_quotient: "j \<le> 1074 \<Longrightarrow> rne (2 ^ k / 2 ^ j) = 2 ^ k / 2 ^ j"
proof -
  assume "j \<le> 1074"
  then have "- 1074 \<le> int k - int j" by simp
  then have "rne (2 powr of_int (int k - int j)) = 2 powr of_int (int k - int j)" by (rule rne_pow2)
  moreover have "(2::real) powr of_int (int k - int j) = 2 ^ k / 2 ^ j"
    by (simp add: powr_diff powr_realpow)
  ultimately show ?thesis by simp
qed

lemma refract64_unit_index:
  assumes nx: "\<bar>nx\<bar> \<le> 2" and ny: "- 1 \<le> ny" "ny \<le> - (1 / 2 ^ 24)" and dn: "rne ny = ny"
  shows "\<exists>r0 r1. refract64 (Num 1) (Num nx) (Num ny) = Some (Num r0, Num r1)
           \<and> \<bar>r0\<bar> \<le> 1 / 2 ^ 26 \<and> 1 / 2 \<le> r1 \<and> r1 \<le> 2"
proof -
  define e where "e = macheps + tiny"
  have e: "0 < e" "e * (3 * 2 ^ 24 + 1) \<le> 1 / 2 ^ 27"
    by (simp_all add: e_def macheps_def tiny_def)
  define q where "q = rne (ny * ny)"
  define a where "a = rne (1 - q)"
  define k where "k = rne (1 - a)"
  define ks where "ks = rne (sqrt k)"
  define s where "s = rne (ny + ks)"
  define r0 where "r0 = rne (- s * nx)"
  define z where "z = rne (s * ny)"
  define r1 where "r1 = rne (1 - z)"
  have ny': "- 1 \<le> ny" "ny \<le> 0" using ny by simp_all
  have any: "\<bar>ny\<bar> \<le> 2 ^ 0" using ny by simp
  have k0: "2 * (0::nat) \<le> 1023" by simp
  note sq = square_bounded[OF k0 any, folded q_def]
  have q1: "q \<le> 1" using sq(3) by simp
  have nn: "ny * ny \<le> 1"
  proof -
    have "\<bar>ny\<bar> * \<bar>ny\<bar> \<le> 1 * 1" using ny by (intro mult_mono) auto
    then show ?thesis by (simp add: abs_mult_self_eq)
  qed
  have a01: "0 \<le> a" "a \<le> 1" unfolding a_def using sq(2) q1 by (auto intro: rne_nonneg rne_le)
  have k01: "0 \<le> k" "k \<le> 1" unfolding k_def using a01 by (auto intro: rne_nonneg rne_le)
  have sk01: "0 \<le> sqrt k" "sqrt k \<le> 1" using k01 by auto
  have ks01: "0 \<le> ks" "ks \<le> 1" unfolding ks_def using sk01 by (auto intro: rne_nonneg rne_le)
  have f1: "fl (1 - q) = Num a" unfolding a_def by (intro fl_small) (use sq(2) q1 in linarith)
  have "fl a = Num (rne a)" by (intro fl_small) (use a01 in linarith)
  then have f2: "fl a = Num a" by (simp add: a_def)
  have f3: "fl (1 - a) = Num k" unfolding k_def by (intro fl_small) (use a01 in linarith)
  have f4: "fl (sqrt k) = Num ks" unfolding ks_def by (intro fl_small) (use sk01 in linarith)
  have "fl ny = Num (rne ny)" by (intro fl_small) (use ny' in linarith)
  then have f5: "fl ny = Num ny" by (simp add: dn)
  have f6: "fl (ny + ks) = Num s" unfolding s_def by (intro fl_small) (use ny' ks01 in linarith)
  have kk: "refract_k64 (Num 1) (Num ny) = Num k"
    unfolding refract_k64_def Let_def sq(1) by (simp add: minus_double_def f1 f2 f3)
  have "\<bar>q - ny * ny\<bar> \<le> e" unfolding q_def e_def using nn by (intro rne_error_unit) auto
  moreover have "\<bar>a - (1 - q)\<bar> \<le> e" unfolding a_def e_def using sq(2) q1 by (intro rne_error_unit) auto
  moreover have "\<bar>k - (1 - a)\<bar> \<le> e" unfolding k_def e_def using a01 by (intro rne_error_unit) auto
  ultimately have kn: "\<bar>k - ny * ny\<bar> \<le> 3 * e" by linarith
  define c where "c = sqrt k"
  define n where "n = - ny"
  have n: "1 / 2 ^ 24 \<le> n" "n \<le> 1" using ny by (simp_all add: n_def)
  have c0: "0 \<le> c" unfolding c_def using k01 by simp
  have cc: "c * c = k" unfolding c_def using k01 by simp
  have "\<bar>c - n\<bar> * n \<le> \<bar>c - n\<bar> * (c + n)" using c0 by (intro mult_left_mono) auto
  also have "\<dots> = \<bar>(c - n) * (c + n)\<bar>" using c0 n by (simp add: abs_mult)
  also have "(c - n) * (c + n) = k - ny * ny" using cc by (simp add: n_def algebra_simps)
  finally have "\<bar>c - n\<bar> * n \<le> 3 * e" using kn by linarith
  moreover have "\<bar>c - n\<bar> * (1 / 2 ^ 24) \<le> \<bar>c - n\<bar> * n" using n(1) by (intro mult_left_mono) auto
  ultimately have cn: "\<bar>c - n\<bar> \<le> 3 * 2 ^ 24 * e" by simp
  have "\<bar>ks - c\<bar> \<le> e" unfolding ks_def c_def e_def using sk01 by (intro rne_error_unit) auto
  with cn have "\<bar>ny + ks\<bar> \<le> e * (3 * 2 ^ 24 + 1)" by (simp add: n_def algebra_simps)
  with e(2) have sm: "\<bar>ny + ks\<bar> \<le> 1 / 2 ^ 27" by linarith
  have e27: "rne (1 / 2 ^ 27) = 1 / 2 ^ 27" by (rule rne_inverse_pow2) simp
  have s27: "\<bar>s\<bar> \<le> 1 / 2 ^ 27" unfolding s_def using sm e27 by (rule rne_abs_le)
  have "\<bar>- s * nx\<bar> = \<bar>s\<bar> * \<bar>nx\<bar>" by (simp add: abs_mult)
  also have "\<dots> \<le> (1 / 2 ^ 27) * 2" using s27 nx by (intro mult_mono) auto
  finally have p0: "\<bar>- s * nx\<bar> \<le> 1 / 2 ^ 26" by simp
  have e26: "rne (1 / 2 ^ 26) = 1 / 2 ^ 26" by (rule rne_inverse_pow2) simp
  have r0b: "\<bar>r0\<bar> \<le> 1 / 2 ^ 26" unfolding r0_def using p0 e26 by (rule rne_abs_le)
  have f7: "fl (- s * nx) = Num r0" unfolding r0_def by (intro fl_small) (use p0 in simp)
  have "\<bar>s * ny\<bar> = \<bar>s\<bar> * \<bar>ny\<bar>" by (simp add: abs_mult)
  also have "\<dots> \<le> (1 / 2 ^ 27) * 1" using s27 ny by (intro mult_mono) auto
  finally have p1: "\<bar>s * ny\<bar> \<le> 1 / 2 ^ 27" by simp
  have zb: "\<bar>z\<bar> \<le> 1 / 2 ^ 27" unfolding z_def using p1 e27 by (rule rne_abs_le)
  have f8: "fl (s * ny) = Num z" unfolding z_def by (intro fl_small) (use p1 in simp)
  have "1 / 2 \<le> 1 - z" "1 - z \<le> 2" using zb by simp_all
  then have r1b: "1 / 2 \<le> r1" "r1 \<le> 2" unfolding r1_def using rne_half by (rule rne_between, simp)+
  have f9: "fl (1 - z) = Num r1" unfolding r1_def by (intro fl_small) (use zb in simp)
  have "refract64 (Num 1) (Num nx) (Num ny) = Some (Num r0, Num r1)"
    unfolding refract64_def Let_def kk using k01(1) f7
    by (simp add: f4 f5 f6 f8 f9 minus_double_def)
  then show ?thesis using r0b r1b by blast
qed

lemma sample64_unit_index:
  assumes g: "\<bar>g\<bar> \<le> 2 ^ k" and b: "\<bar>b\<bar> \<le> 2 ^ k" and k: "k \<le> 1000"
    and i: "i < n" and n: "n \<le> 2 ^ 53"
  shows "\<exists>v. sample64 (Num g) (Num b) (SurfaceEquations64 p) (Num 1) n i = Num v
           \<and> \<bar>v\<bar> \<le> 2 ^ k / 2 ^ 16"
proof -
  define y where "y = SurfaceEquations64 p (count i / count n)"
  have "unit64 (count i / count n)" using i n by (rule sample_position64)
  then have y: "bounded64 8 y" unfolding y_def by (rule SurfaceEquations64_bounded)
  obtain nx ny where nm: "sampleNormal64 (SurfaceEquations64 p) n i = (Num nx, Num ny)"
      "\<bar>nx\<bar> \<le> 2" "- 1 \<le> ny" "ny \<le> - (1 / 2 ^ 24)" "rne ny = ny"
    using sampleNormal64_bounds[OF i n, of p] by blast
  obtain r0 r1 where rf: "refract64 (Num 1) (Num nx) (Num ny) = Some (Num r0, Num r1)"
      "\<bar>r0\<bar> \<le> 1 / 2 ^ 26" "1 / 2 \<le> r1" "r1 \<le> 2"
    using refract64_unit_index[OF nm(2-5)] by blast
  have bb: "bounded64 k (Num b)" and bg: "bounded64 k (Num g)" using b g by (auto intro: bounded64I)
  have "bounded64 (8 + k) (y * Num b)" using y bb by (rule bounded64_times) (use k in simp_all)
  then have "bounded64 (9 + k) (y * Num b + Num g)"
    using bg by (rule bounded64_plus) (use k in simp_all)
  then have "bounded64 (Suc (9 + k)) ((y * Num b + Num g) / Num r1)"
    using rf(3) by (rule bounded64_divide) (use k in simp)
  then obtain z where z: "(y * Num b + Num g) / Num r1 = Num z" "\<bar>z\<bar> \<le> 2 ^ (10 + k)"
    by (auto simp: bounded64_def)
  have "\<bar>r0 * z\<bar> = \<bar>r0\<bar> * \<bar>z\<bar>" by (simp add: abs_mult)
  also have "\<dots> \<le> (1 / 2 ^ 26) * 2 ^ (10 + k)" using rf(2) z(2) by (intro mult_mono) auto
  also have "\<dots> = 2 ^ k / 2 ^ 16" by (simp add: power_add)
  finally have p: "\<bar>r0 * z\<bar> \<le> 2 ^ k / 2 ^ 16" .
  have "(2::real) ^ k / 2 ^ 16 \<le> 2 ^ k" by (simp add: field_simps)
  also have "(2::real) ^ k \<le> 2 ^ 1023" using k by (intro power_increasing) auto
  finally have "\<bar>r0 * z\<bar> \<le> 2 ^ 1023" using p by linarith
  then have f: "fl (r0 * z) = Num (rne (r0 * z))" by (rule fl_Num)
  have e: "rne (2 ^ k / 2 ^ 16) = 2 ^ k / 2 ^ 16" by (rule rne_pow2_quotient) simp
  have v: "\<bar>rne (r0 * z)\<bar> \<le> 2 ^ k / 2 ^ 16" using p e by (rule rne_abs_le)
  have "sample64 (Num g) (Num b) (SurfaceEquations64 p) (Num 1) n i = Num r0 * ((y * Num b + Num g) / Num r1)"
    unfolding sample64_def Let_def nm(1) fst_conv snd_conv rf(1) y_def by simp
  then show ?thesis unfolding z(1) using f v by simp
qed

lemma rne_dyadic:
  assumes "\<bar>m\<bar> \<le> 2 ^ 53" and "j \<le> 1074"
  shows "rne (of_int m / 2 ^ j) = of_int m / 2 ^ j"
proof -
  have "- 1074 \<le> - int j" using assms(2) by simp
  with assms(1) have "rne (of_int m * 2 powr of_int (- int j)) = of_int m * 2 powr of_int (- int j)"
    by (rule rne_exact)
  moreover have "(2::real) powr of_int (- int j) = 1 / 2 ^ j"
    by (simp add: powr_minus powr_realpow divide_simps)
  ultimately show ?thesis by simp
qed

lemma rne_below_one: "rne (1 - 1 / 2 ^ 56) = 1"
proof (rule rne_near[where b = "- 1" and k = "2 ^ 53"])
  show "binade (1 - 1 / 2 ^ 56) = - 1"
    by (rule binade_eq) (simp_all add: powr_minus)
  show "1 = real_of_int (2 ^ 53) * 2 powr (real_of_int (- 1) - 52)"
    by (simp add: powr_minus)
  show "\<bar>1 - 1 / 2 ^ 56 - 1\<bar> < 2 powr (real_of_int (- 1) - 52) / 2"
    by (simp add: powr_minus)
qed

lemma last_sample_values:
  assumes X: "X = 16383 / 16384" and Y: "Y = 1 / 2 ^ 14" and Z: "Z = 1 / 2 ^ 56"
  shows "count 16383 / count 16384 = Num X"
    and "Num 1 - Num X = Num Y"
    and "pow64 (Num Y) (Num 4) = Num Z"
    and "Num 1 - Num Z = Num 1"
    and "pow64 (Num 1) (Num (1 / 4)) = Num 1"
    and "Num X < Num 1"
proof -
  have eX: "rne X = X" using rne_dyadic[of 16383 14] by (simp add: X)
  have eY: "rne Y = Y" using rne_inverse_pow2[of 14] by (simp add: Y)
  have eZ: "rne Z = Z" using rne_inverse_pow2[of 56] by (simp add: Z)
  have sm: "\<bar>X\<bar> \<le> 4" "\<bar>Y\<bar> \<le> 4" "\<bar>Z\<bar> \<le> 4" "\<bar>1 - Z\<bar> \<le> 4" by (simp_all add: X Y Z)
  show "count 16383 / count 16384 = Num X" using fl_small[OF sm(1)] eX unfolding X by simp
  have "1 - X = Y" by (simp add: X Y)
  then show "Num 1 - Num X = Num Y" using fl_small[OF sm(2)] eY by (simp add: minus_double_def)
  have "real_pow Y 4 = Z" by (simp add: real_pow_def Y Z power_divide)
  moreover have "Y \<noteq> 0" "\<not> Y < 0" by (simp_all add: Y)
  ultimately show "pow64 (Num Y) (Num 4) = Num Z" using fl_small[OF sm(3)] eZ by simp
  have "rne (1 - Z) = 1" using rne_below_one by (simp add: Z)
  then show "Num 1 - Num Z = Num 1" using fl_small[OF sm(4)] by (simp add: minus_double_def)
  have "real_pow 1 (1 / 4) = 1" by (simp add: real_pow_def)
  then show "pow64 (Num 1) (Num (1 / 4)) = Num 1" by simp
  show "Num X < Num 1" by (simp add: X)
qed

lemma squircle_at_one: "SurfaceEquations64 convex_squircle (Num 1) = Num 1"
proof -
  have "real_pow 1 (1 / 4) = 1" by (simp add: real_pow_def)
  then have p: "pow64 (Num 1) (Num (1 / 4)) = Num 1" by simp
  have a: "Num 1 - Num 1 = Num 0" and b: "pow64 (Num 0) (Num 4) = Num 0"
    and c: "Num 1 - Num 0 = Num 1"
    by (simp_all add: minus_double_def)
  show ?thesis unfolding SurfaceEquations64.simps quarter64 a b c p ..
qed

lemma last_sample_normal:
  assumes X: "X = 16383 / 16384"
  shows "SurfaceEquations64 convex_squircle (Num X) = Num 1"
    and "sampleNormal64 (SurfaceEquations64 convex_squircle) 16384 16383 = (Num 0, Num (- 1))"
proof -
  note v = last_sample_values[OF X refl refl]
  show y: "SurfaceEquations64 convex_squircle (Num X) = Num 1"
    unfolding SurfaceEquations64.simps quarter64 v ..
  obtain h where h: "literal 0.0001 = Num h" "1 / 2 ^ 14 \<le> h" "h \<le> 1 / 2 ^ 13"
    using step64 by blast
  have "\<bar>X + h\<bar> \<le> 4" using h by (simp add: X)
  then have f: "fl (X + h) = Num (rne (X + h))" by (rule fl_small)
  have "1 \<le> X + h" using h(2) by (simp add: X)
  then have "1 \<le> rne (X + h)" by (intro rne_ge) auto
  then have cl: "max64 (Num 0) (min64 (Num 1) (Num X + Num h)) = Num 1"
    by (simp add: f)
  have h0: "h \<noteq> 0" using h(2) by auto
  have d: "(Num 1 - Num 1) / Num h = Num 0" using h0 by (simp add: minus_double_def)
  have m: "sqrt64 (Num 0 * Num 0 + Num 1) = Num 1" by simp
  have n: "- Num 0 / Num 1 = Num 0" "- Num 1 / Num 1 = Num (- 1)" by simp_all
  show "sampleNormal64 (SurfaceEquations64 convex_squircle) 16384 16383 = (Num 0, Num (- 1))"
    unfolding sampleNormal64_def Let_def v(1) if_P[OF v(6)] h(1) cl y squircle_at_one d m n ..
qed

lemma overflowing_sample:
  assumes "G = 2 ^ 1023"
  shows "sample64 (Num G) (Num G) (SurfaceEquations64 convex_squircle) (Num 1) 16384 16383 = NotANumber"
proof -
  note v = last_sample_values[OF refl refl refl]
  note nm = last_sample_normal[OF refl]
  have r: "refract64 (Num 1) (Num 0) (Num (- 1)) = Some (Num 0, Num 1)"
    by (simp add: refract64_def refract_k64_def Let_def minus_double_def)
  have "rne G = G" using rne_pow2[of 1023] by (simp add: assms)
  moreover have "\<bar>G\<bar> \<le> 2 ^ 1023" by (simp add: assms)
  ultimately have g1: "fl G = Num G" by (simp add: fl_Num)
  have "2 * G = 2 ^ 1024" by (simp add: assms)
  moreover have "rne (2 ^ 1024) = 2 ^ 1024" using rne_pow2[of 1024] by simp
  moreover have "0 < G" by (simp add: assms)
  ultimately have g2: "fl (2 * G) = PosInf" by (simp add: fl_def max_double_def)
  have e: "Num 0 * ((Num 1 * Num G + Num G) / Num 1) = NotANumber" by (simp add: g1 g2)
  show ?thesis
    unfolding sample64_def Let_def v(1) nm fst_conv snd_conv r option.case prod.case e ..
qed

lemma overflowing_table:
  assumes "G = 2 ^ 1023"
  shows "calculateDisplacementMap1D64 (Num G) (Num G) (SurfaceEquations64 convex_squircle) (Num 1)
           (Some 16384) ! 16383 = NotANumber"
  using overflowing_sample[OF assms]
  by (simp add: calculateDisplacementMap1D64_def Let_def sampleCount_def)

text \<open>
  Claim C2 as stated fails.  With \<open>glassThickness = bezelWidth = 2 ^ 1023\<close>, the
  profile \<open>convex_squircle\<close> and 16384 samples, the last sample has \<open>y = 1\<close>, the
  normal \<open>(0, - 1)\<close> and the refracted direction \<open>(0, 1)\<close>, the remaining height
  \<open>y * bezelWidth + glassThickness\<close> overflows to \<open>Infinity\<close>, and the entry is
  \<open>0 * Infinity\<close>, which is \<open>NaN\<close>.
\<close>

theorem unit_index_overflow:
  "calculateDisplacementMap1D64 (Num (2 ^ 1023)) (Num (2 ^ 1023))
     (SurfaceEquations64 convex_squircle) (Num 1) (Some 16384) ! 16383 = NotANumber"
  using overflowing_table[of "2 ^ 1023"] by simp

text \<open>
  Claim C2, amended.  With a refractive index of 1, a glass thickness and a bezel
  width of magnitude at most \<open>2 ^ k\<close> for some \<open>k \<le> 1000\<close>, each of the four
  profiles and every sample count up to \<open>2 ^ 53\<close> (the default included), the table
  has one entry for each sample and every entry is a number of magnitude at most
  \<open>2 ^ k / 2 ^ 16\<close>.  The entries are not exactly zero: \<open>eta * dot + kSqrt\<close> cancels
  only up to the rounding of \<open>k\<close> and of its root.
\<close>

theorem unit_index_small_displacement:
  assumes "\<bar>glassThickness\<bar> \<le> 2 ^ k" and "\<bar>bezelWidth\<bar> \<le> 2 ^ k" and "k \<le> 1000"
    and "sampleCount samples \<le> 2 ^ 53"
  shows "length (calculateDisplacementMap1D64 (Num glassThickness) (Num bezelWidth)
                   (SurfaceEquations64 p) (Num 1) samples) = sampleCount samples
       \<and> (\<forall>i < sampleCount samples. \<exists>v.
            calculateDisplacementMap1D64 (Num glassThickness) (Num bezelWidth)
              (SurfaceEquations64 p) (Num 1) samples ! i = Num v
            \<and> \<bar>v\<bar> \<le> 2 ^ k / 2 ^ 16)"
proof -
  have eta: "Num 1 / Num 1 = Num 1" by simp
  show ?thesis
    unfolding calculateDisplacementMap1D64_def Let_def eta
    using sample64_unit_index[OF assms(1,2,3) _ assms(4)] by simp
qed

text \<open>
  An instance: thickness 150 and width 30, both below \<open>2 ^ 8\<close>, the profile
  \<open>convex_squircle\<close> and the default 128 samples; entry 5 is at most \<open>1 / 256\<close>.
\<close>

theorem unit_index_small_displacement_witness:
  "\<bar>150 :: real\<bar> \<le> 2 ^ 8 \<and> \<bar>30 :: real\<bar> \<le> 2 ^ 8 \<and> (8::nat) \<le> 1000 \<and> sampleCount None \<le> 2 ^ 53
   \<and> (5::nat) < sampleCount None
   \<and> length (calculateDisplacementMap1D64 (Num 150) (Num 30)
                (SurfaceEquations64 convex_squircle) (Num 1) None) = 128
   \<and> (\<exists>v. calculateDisplacementMap1D64 (Num 150) (Num 30)
              (SurfaceEquations64 convex_squircle) (Num 1) None ! 5 = Num v
          \<and> \<bar>v\<bar> \<le> 1 / 256)"
proof -
  have h1: "\<bar>150 :: real\<bar> \<le> 2 ^ 8" and h2: "\<bar>30 :: real\<bar> \<le> 2 ^ 8" and h3: "(8::nat) \<le> 1000"
    and h4: "sampleCount None \<le> 2 ^ 53" and h5: "(5::nat) < sampleCount None"
    by (simp_all add: sampleCount_def)
  show ?thesis
    using h1 h2 h3 h4 h5 unit_index_small_displacement[OF h1 h2 h3 h4, of convex_squircle]
    by (simp add: sampleCount_def)
qed

end
